theory Spec2Isabelle
  imports Complex_Main
begin

section \<open>Python strings\<close>

text \<open>
  A Python \<open>str\<close> is modelled as a list of \<^typ>\<open>char\<close>, read as the code points 0 to 255.
  Code points above 255 are outside the model. Within this range the decimal digits of
  \<open>\d\<close> and \<open>int()\<close> are exactly \<open>0\<close> to \<open>9\<close>.
\<close>

definition py_isspace :: "char \<Rightarrow> bool" where
  \<comment> \<open>\<open>str.isspace\<close> on one character; also what \<open>str.strip()\<close> removes and \<open>\s\<close> matches.\<close>
  "py_isspace c \<longleftrightarrow> c \<in> set [CHR 0x09, CHR 0x0A, CHR 0x0B, CHR 0x0C, CHR 0x0D,
     CHR 0x1C, CHR 0x1D, CHR 0x1E, CHR 0x1F, CHR 0x20, CHR 0x85, CHR 0xA0]"

definition is_digit :: "char \<Rightarrow> bool" where
  "is_digit c \<longleftrightarrow> c \<in> set ''0123456789''"

definition digit_val :: "char \<Rightarrow> nat" where
  "digit_val c = of_char c - 48"

definition digits_value :: "string \<Rightarrow> nat" where
  \<comment> \<open>the number a string of decimal digits denotes, most significant digit first\<close>
  "digits_value ds = foldl (\<lambda>acc c. 10 * acc + digit_val c) 0 ds"

definition strip_with :: "(char \<Rightarrow> bool) \<Rightarrow> string \<Rightarrow> string" where
  "strip_with sp s = rev (dropWhile sp (rev (dropWhile sp s)))"

definition strip :: "string \<Rightarrow> string" where
  \<comment> \<open>\<open>str.strip()\<close>\<close>
  "strip s = strip_with py_isspace s"

fun split_on :: "char \<Rightarrow> string \<Rightarrow> string list" where
  \<comment> \<open>\<open>s.split(sep)\<close> for a separator of one character\<close>
  "split_on sep [] = [[]]"
| "split_on sep (c # cs) =
     (if c = sep then [] # split_on sep cs
      else (case split_on sep cs of
              [] \<Rightarrow> [[c]]
            | w # ws \<Rightarrow> (c # w) # ws))"

section \<open>Errors\<close>

text \<open>
  An exception is identified by its class; its message is not modelled.
\<close>

datatype error =
    ValueError                 \<comment> \<open>raised by \<open>int()\<close>, \<open>str()\<close>, \<open>timestamp_to_seconds\<close> and
                                   \<open>subprocess.run\<close>\<close>
  | OverflowError              \<comment> \<open>int too large to convert to float\<close>
  | IndexError
  | CalledProcessError         \<comment> \<open>\<open>subprocess.run(..., check=True)\<close> with a non-zero exit status\<close>
  | OSError                    \<comment> \<open>\<open>subprocess.run\<close> could not start the process\<close>
  | SystemExit_not_found       \<comment> \<open>\<open>sys.exit(1)\<close> of \<open>parse_config\<close>: no config file\<close>
  | SystemExit_missing "string list"
      \<comment> \<open>\<open>sys.exit(1)\<close> of \<open>parse_config\<close>, with the fields reported missing\<close>

section \<open>The builtin \<open>int()\<close> on a string\<close>

text \<open>
  \<open>int(s)\<close> in base 10 skips surrounding whitespace, reads an optional sign and then decimal
  digits in which single underscores may separate digits. The whitespace it skips is that of
  C's \<open>isspace\<close> together with the non-ASCII spaces; the separators \<open>0x1C\<close> to \<open>0x1F\<close>
  are whitespace for \<open>str.strip\<close> but not for \<open>int()\<close>. Python integers are unbounded, but
  the conversions between \<open>int\<close> and decimal text refuse more than 4300 digits, the
  interpreter's default limit, with a \<open>ValueError\<close>; \<open>int()\<close> counts the digit characters
  of the text, leading zeros included, and \<open>str()\<close> the digits of the number.
\<close>

definition max_str_digits :: nat where
  \<comment> \<open>\<open>sys.get_int_max_str_digits()\<close>, by default\<close>
  "max_str_digits = 4300"

definition int_isspace :: "char \<Rightarrow> bool" where
  "int_isspace c \<longleftrightarrow> c \<in> set [CHR 0x09, CHR 0x0A, CHR 0x0B, CHR 0x0C, CHR 0x0D,
     CHR 0x20, CHR 0x85, CHR 0xA0]"

definition py_digits :: "string \<Rightarrow> error + nat" where
  \<comment> \<open>digit groups separated by single underscores, at most \<open>max_str_digits\<close> digits in all\<close>
  "py_digits body =
     (let groups = split_on CHR ''_'' body in
      if list_all (\<lambda>g. g \<noteq> [] \<and> list_all is_digit g) groups
         \<and> length (concat groups) \<le> max_str_digits
      then Inr (digits_value (concat groups))
      else Inl ValueError)"

definition py_int :: "string \<Rightarrow> error + int" where
  "py_int s =
     (case strip_with int_isspace s of
        [] \<Rightarrow> Inl ValueError
      | c # r \<Rightarrow>
          if c = CHR ''-'' then
            (case py_digits r of Inl e \<Rightarrow> Inl e | Inr n \<Rightarrow> Inr (- int n))
          else if c = CHR ''+'' then
            (case py_digits r of Inl e \<Rightarrow> Inl e | Inr n \<Rightarrow> Inr (int n))
          else
            (case py_digits (c # r) of Inl e \<Rightarrow> Inl e | Inr n \<Rightarrow> Inr (int n)))"

section \<open>\<open>timestamp_to_seconds\<close>\<close>

definition timestamp_to_seconds :: "string \<Rightarrow> error + int" where
  "timestamp_to_seconds timestamp =
     (case split_on CHR '':'' timestamp of
        [minutes, seconds] \<Rightarrow>
          (case py_int minutes of
             Inl e \<Rightarrow> Inl e
           | Inr m \<Rightarrow>
              (case py_int seconds of
                 Inl e \<Rightarrow> Inl e
               | Inr s \<Rightarrow> Inr (m * 60 + s)))
      | [hours, minutes, seconds] \<Rightarrow>
          (case py_int hours of
             Inl e \<Rightarrow> Inl e
           | Inr h \<Rightarrow>
              (case py_int minutes of
                 Inl e \<Rightarrow> Inl e
               | Inr m \<Rightarrow>
                  (case py_int seconds of
                     Inl e \<Rightarrow> Inl e
                   | Inr s \<Rightarrow> Inr (h * 3600 + m * 60 + s))))
      | _ \<Rightarrow> Inl ValueError)"

definition digit_field :: "string \<Rightarrow> bool" where
  \<comment> \<open>the specification's \<open>D+\<close>: one or more decimal digits\<close>
  "digit_field d \<longleftrightarrow> d \<noteq> [] \<and> list_all is_digit d"

fun join_with :: "char \<Rightarrow> string list \<Rightarrow> string" where
  \<comment> \<open>\<open>sep.join(parts)\<close> for a separator of one character\<close>
  "join_with sep [] = []"
| "join_with sep [g] = g"
| "join_with sep (g # h # gs) = g @ sep # join_with sep (h # gs)"

definition int_literal :: "string \<Rightarrow> bool" where
  \<comment> \<open>the texts \<open>int()\<close> accepts: whitespace, an optional sign, groups of digits joined by
      single underscores, whitespace; at most \<open>max_str_digits\<close> digits in all\<close>
  "int_literal f \<longleftrightarrow>
     (\<exists>pre sgn groups post.
        f = pre @ sgn @ join_with CHR ''_'' groups @ post \<and>
        list_all int_isspace pre \<and> list_all int_isspace post \<and>
        (sgn = [] \<or> sgn = ''+'' \<or> sgn = ''-'') \<and>
        groups \<noteq> [] \<and> list_all digit_field groups \<and>
        length (concat groups) \<le> max_str_digits)"

section \<open>Python numbers\<close>

text \<open>
  A Python \<open>float\<close> is an IEEE binary64 value. A finite one is kept as a mantissa and a
  binary exponent, \<open>Finite m e\<close> standing for \<open>m * 2 ^ e\<close>; the two zeros are not told
  apart. Arithmetic computes the exact result and rounds it to the nearest binary64 value,
  ties to the even mantissa, as the hardware does.
\<close>

datatype pyfloat = Finite int int | PosInf | NegInf | NaN

datatype pynum = PyInt int | PyFloat pyfloat

function nbits :: "int \<Rightarrow> nat" where
  \<comment> \<open>the number of binary digits of a non-negative \<open>k\<close>\<close>
  "nbits k = (if k \<le> 0 then 0 else Suc (nbits (k div 2)))"
  by pat_completeness auto
termination
  by (relation "measure nat") auto

declare nbits.simps [simp del]

definition round_half_even :: "int \<Rightarrow> nat \<Rightarrow> int" where
  \<comment> \<open>\<open>k / 2 ^ sh\<close> rounded to the nearest integer, ties to even\<close>
  "round_half_even k sh =
     (let q = k div 2 ^ sh; r = k mod 2 ^ sh in
      if 2 * r > 2 ^ sh \<or> (2 * r = 2 ^ sh \<and> odd q) then q + 1 else q)"

definition round_double :: "int \<Rightarrow> int \<Rightarrow> pyfloat" where
  \<comment> \<open>the binary64 value nearest to \<open>k * 2 ^ e\<close>: at most 53 mantissa bits, no exponent
      below -1074, infinity from \<open>2 ^ 1024\<close> on\<close>
  "round_double k e =
     (let sh = max (int (nbits \<bar>k\<bar>) - 53) (- 1074 - e);
          m = (if sh \<le> 0 then k else round_half_even k (nat sh));
          x = (if sh \<le> 0 then e else e + sh)
      in if int (nbits \<bar>m\<bar>) + x > 1024
         then (if 0 < m then PosInf else NegInf)
         else Finite m x)"

definition float_of_int :: "int \<Rightarrow> error + pyfloat" where
  \<comment> \<open>the conversion applied to an \<open>int\<close> operand of float arithmetic\<close>
  "float_of_int k =
     (case round_double k 0 of
        Finite m e \<Rightarrow> Inr (Finite m e)
      | _ \<Rightarrow> Inl OverflowError)"

fun float_sub :: "pyfloat \<Rightarrow> pyfloat \<Rightarrow> pyfloat" where
  "float_sub (Finite m1 e1) (Finite m2 e2) =
     (let e = min e1 e2 in
      round_double (m1 * 2 ^ nat (e1 - e) - m2 * 2 ^ nat (e2 - e)) e)"
| "float_sub NaN _ = NaN"
| "float_sub _ NaN = NaN"
| "float_sub PosInf PosInf = NaN"
| "float_sub NegInf NegInf = NaN"
| "float_sub PosInf _ = PosInf"
| "float_sub NegInf _ = NegInf"
| "float_sub (Finite m e) PosInf = NegInf"
| "float_sub (Finite m e) NegInf = PosInf"

definition float_sub_int :: "pyfloat \<Rightarrow> int \<Rightarrow> error + pyfloat" where
  \<comment> \<open>\<open>x - k\<close> for a float \<open>x\<close> and an int \<open>k\<close>\<close>
  "float_sub_int x k =
     (case float_of_int k of
        Inl err \<Rightarrow> Inl err
      | Inr y \<Rightarrow> Inr (float_sub x y))"

definition is_double :: "pyfloat \<Rightarrow> bool" where
  \<comment> \<open>the representations of finite binary64 values\<close>
  "is_double x =
     (case x of
        Finite m e \<Rightarrow> \<bar>m\<bar> < 2 ^ 53 \<and> - 1074 \<le> e \<and> e \<le> 971
      | _ \<Rightarrow> False)"

definition is_finite :: "pynum \<Rightarrow> bool" where
  "is_finite d = (case d of PyInt k \<Rightarrow> True | PyFloat (Finite m e) \<Rightarrow> True | _ \<Rightarrow> False)"

fun float_val :: "pyfloat \<Rightarrow> rat" where
  \<comment> \<open>the rational number a finite float stands for\<close>
  "float_val (Finite m e) =
     (if 0 \<le> e then of_int (m * 2 ^ nat e) else of_int m / of_int (2 ^ nat (- e)))"
| "float_val _ = 0"

fun num_val :: "pynum \<Rightarrow> rat" where
  "num_val (PyInt k) = of_int k"
| "num_val (PyFloat x) = float_val x"

section \<open>Formatting\<close>

definition digit_char :: "nat \<Rightarrow> char" where
  \<comment> \<open>the character of a decimal digit \<open>d < 10\<close>\<close>
  "digit_char d = ''0123456789'' ! d"

fun str_nat :: "nat \<Rightarrow> string" where
  \<comment> \<open>\<open>str(n)\<close>, also \<open>f"{n}"\<close>, for a non-negative \<open>int\<close>\<close>
  "str_nat n = (if n < 10 then [digit_char n] else str_nat (n div 10) @ [digit_char (n mod 10)])"

declare str_nat.simps [simp del]

definition format_02d :: "nat \<Rightarrow> string" where
  \<comment> \<open>\<open>f"{n:02d}"\<close> for a non-negative \<open>int\<close>\<close>
  "format_02d n = replicate (2 - length (str_nat n)) CHR ''0'' @ str_nat n"

fun str_replace :: "char \<Rightarrow> char \<Rightarrow> string \<Rightarrow> string" where
  \<comment> \<open>\<open>s.replace(old, new)\<close> for \<open>old\<close> and \<open>new\<close> of one character each\<close>
  "str_replace old new [] = []"
| "str_replace old new (c # cs) =
     (if c = old then new # str_replace old new cs else c # str_replace old new cs)"

function dec_digits :: "int \<Rightarrow> nat" where
  \<comment> \<open>the number of decimal digits of \<open>\<bar>k\<bar>\<close>\<close>
  "dec_digits k = (if \<bar>k\<bar> < 10 then 1 else Suc (dec_digits (\<bar>k\<bar> div 10)))"
  by pat_completeness auto
termination
  by (relation "measure (\<lambda>k. nat \<bar>k\<bar>)") auto

declare dec_digits.simps [simp del]

definition str_int_ok :: "int \<Rightarrow> bool" where
  \<comment> \<open>whether \<open>str(k)\<close> returns: it raises \<open>ValueError\<close> beyond the digit limit\<close>
  "str_int_ok k \<longleftrightarrow> dec_digits k \<le> max_str_digits"

definition str_num_ok :: "pynum \<Rightarrow> bool" where
  \<comment> \<open>whether \<open>str(x)\<close> returns; for a float it always does\<close>
  "str_num_ok x = (case x of PyInt k \<Rightarrow> str_int_ok k | PyFloat y \<Rightarrow> True)"

definition format_1f :: "pynum \<Rightarrow> error + pyfloat" where
  \<comment> \<open>the value that \<open>f"{x:.1f}"\<close> renders: an int is converted to float first, which may
      overflow; the decimal rendering itself is not modelled\<close>
  "format_1f x = (case x of PyInt k \<Rightarrow> float_of_int k | PyFloat y \<Rightarrow> Inr y)"

text \<open>
  A \<open>Path\<close> is given by a text it can be built from, and \<open>str()\<close> of a path is its
  normal form under POSIX: empty and \<open>.\<close> components are dropped, the root is \<open>/\<close>, or
  \<open>//\<close> for exactly two leading slashes, and the path with no root and no component is
  \<open>.\<close>.
\<close>

definition path_root :: "string \<Rightarrow> string" where
  "path_root s =
     (if take 2 s = ''//'' \<and> take 3 s \<noteq> ''///'' then ''//''
      else if take 1 s = ''/'' then ''/''
      else [])"

definition path_parts :: "string \<Rightarrow> string list" where
  "path_parts s = filter (\<lambda>p. p \<noteq> [] \<and> p \<noteq> ''.'') (split_on CHR ''/'' s)"

definition path_str :: "string \<Rightarrow> string list \<Rightarrow> string" where
  \<comment> \<open>\<open>str()\<close> of the path with this root and these components\<close>
  "path_str anchor parts =
     (if anchor = [] \<and> parts = [] then ''.'' else anchor @ join_with CHR ''/'' parts)"

definition path_norm :: "string \<Rightarrow> string" where
  \<comment> \<open>\<open>str(Path(s))\<close>\<close>
  "path_norm s = path_str (path_root s) (path_parts s)"

definition path_join :: "string \<Rightarrow> string \<Rightarrow> string" where
  \<comment> \<open>\<open>str(Path(directory) / name)\<close>: a \<open>name\<close> with a root replaces the directory\<close>
  "path_join directory name =
     (if take 1 name = ''/'' then path_norm name
      else path_str (path_root directory) (path_parts directory @ path_parts name))"

definition path_name :: "string \<Rightarrow> string" where
  \<comment> \<open>the text after the last slash of a path text: \<open>Path.name\<close> of a path with a final
      component\<close>
  "path_name p = rev (takeWhile (\<lambda>c. c \<noteq> CHR ''/'') (rev p))"

section \<open>\<open>split_audio\<close>\<close>

text \<open>
  The transcoder is an external process. One invocation is recorded with the arguments that
  vary between invocations: the input file, the start (\<open>-ss\<close>), the duration (\<open>-t\<close>) and the
  output file; the start and the duration are kept as numbers, the paths as their texts.
  The transcoder is a parameter telling what \<open>subprocess.run(..., check=True)\<close> raises once
  the process is to be started: nothing when it exits with status 0,
  \<open>CalledProcessError\<close> on another exit status, an \<open>OSError\<close> when it cannot be started.
  \<open>split_audio\<close> returns the invocations made, in order, and either the error raised or
  the list of output files. The progress lines are printed to a standard output that is
  assumed to accept them; of the \<open>print\<close> calls only the formatting, which can raise, is
  modelled.
\<close>

record ffmpeg_call =
  call_input :: string
  call_ss :: int
  call_t :: pynum
  call_output :: string

definition safe_title_of :: "string \<Rightarrow> string" where
  \<comment> \<open>\<open>safe_title = title.replace("/", "-")\<close>\<close>
  "safe_title_of title = str_replace CHR ''/'' CHR ''-'' title"

definition output_file_of :: "string \<Rightarrow> nat \<Rightarrow> string \<Rightarrow> string" where
  \<comment> \<open>\<open>output_dir / f"{track_num} - {safe_title}.mp3"\<close>, as text\<close>
  "output_file_of output_dir i title =
     path_join output_dir (format_02d i @ '' - '' @ safe_title_of title @ ''.mp3'')"

definition track_duration ::
  "(string \<times> string) list \<Rightarrow> pyfloat \<Rightarrow> nat \<Rightarrow> int \<Rightarrow> error + pynum" where
  \<comment> \<open>the \<open>if i < len(tracklist)\<close> statement computing \<open>duration\<close>\<close>
  "track_duration tracklist total_duration i start_seconds =
     (if i < length tracklist then
        (case timestamp_to_seconds (snd (tracklist ! i)) of
           Inl err \<Rightarrow> Inl err
         | Inr next_start \<Rightarrow> Inr (PyInt (next_start - start_seconds)))
      else
        (case float_sub_int total_duration start_seconds of
           Inl err \<Rightarrow> Inl err
         | Inr d \<Rightarrow> Inr (PyFloat d)))"

definition prepare_call ::
  "string \<Rightarrow> string \<Rightarrow> (string \<times> string) list \<Rightarrow> pyfloat \<Rightarrow> nat \<Rightarrow> string \<times> string \<Rightarrow>
   error + ffmpeg_call" where
  \<comment> \<open>one iteration up to the point where the process is to be started: the timestamp, the
      duration, the progress line with \<open>{duration:.1f}\<close>, the \<open>str()\<close> of the numeric arguments,
      and the refusal by \<open>subprocess.run\<close> of an argument with a NUL character\<close>
  "prepare_call input_file output_dir tracklist total_duration i entry =
     (let title = fst entry;
          start_time = snd entry;
          output_file = output_file_of output_dir i title
      in case timestamp_to_seconds start_time of
           Inl err \<Rightarrow> Inl err
         | Inr start_seconds \<Rightarrow>
            (case track_duration tracklist total_duration i start_seconds of
               Inl err \<Rightarrow> Inl err
             | Inr duration \<Rightarrow>
                (case format_1f duration of
                   Inl err \<Rightarrow> Inl err
                 | Inr shown \<Rightarrow>
                    if \<not> str_int_ok start_seconds \<or> \<not> str_num_ok duration then Inl ValueError
                    else if CHR 0x00 \<in> set input_file \<or> CHR 0x00 \<in> set output_file
                    then Inl ValueError
                    else Inr \<lparr>call_input = input_file, call_ss = start_seconds,
                              call_t = duration, call_output = output_file\<rparr>)))"

fun split_loop ::
  "(ffmpeg_call \<Rightarrow> error option) \<Rightarrow> string \<Rightarrow> string \<Rightarrow> (string \<times> string) list \<Rightarrow> pyfloat \<Rightarrow>
   nat \<Rightarrow> (string \<times> string) list \<Rightarrow> ffmpeg_call list \<Rightarrow> string list \<Rightarrow>
   ffmpeg_call list \<times> (error + string list)" where
  \<comment> \<open>the \<open>for\<close> loop from index \<open>i\<close> on, over the entries not yet visited\<close>
  "split_loop ffmpeg input_file output_dir tracklist total_duration i [] calls output_files =
     (calls, Inr output_files)"
| "split_loop ffmpeg input_file output_dir tracklist total_duration i (entry # rest)
     calls output_files =
     (case prepare_call input_file output_dir tracklist total_duration i entry of
        Inl err \<Rightarrow> (calls, Inl err)
      | Inr call \<Rightarrow>
         (case ffmpeg call of
            Some err \<Rightarrow> (calls @ [call], Inl err)
          | None \<Rightarrow>
             split_loop ffmpeg input_file output_dir tracklist total_duration (Suc i) rest
               (calls @ [call]) (output_files @ [call_output call])))"

definition split_audio ::
  "(ffmpeg_call \<Rightarrow> error option) \<Rightarrow> string \<Rightarrow> string \<Rightarrow> (string \<times> string) list \<Rightarrow> pyfloat \<Rightarrow>
   ffmpeg_call list \<times> (error + string list)" where
  "split_audio ffmpeg input_file output_dir tracklist total_duration =
     split_loop ffmpeg input_file output_dir tracklist total_duration 1 tracklist [] []"

definition ffmpeg_ok :: "ffmpeg_call \<Rightarrow> error option" where
  \<comment> \<open>a transcoder that exits with status 0 on every invocation\<close>
  "ffmpeg_ok call = None"

definition ffmpeg_positive :: "ffmpeg_call \<Rightarrow> error option" where
  \<comment> \<open>a transcoder that exits with a non-zero status unless the duration is positive\<close>
  "ffmpeg_positive call = (if 0 < num_val (call_t call) then None else Some CalledProcessError)"

definition planned_call ::
  "string \<Rightarrow> string \<Rightarrow> (string \<times> string) list \<Rightarrow> pyfloat \<Rightarrow> nat \<Rightarrow> error + ffmpeg_call" where
  \<comment> \<open>the preparation of the invocation for the entry at 0-based position \<open>i\<close>\<close>
  "planned_call input_file output_dir tracklist total_duration i =
     prepare_call input_file output_dir tracklist total_duration (Suc i) (tracklist ! i)"

section \<open>\<open>add_metadata\<close>\<close>

text \<open>
  An ID3 tag is a map from frame identifiers to the text of the frame; \<open>audio.add\<close> of a
  frame replaces the frame of that identifier. The tags the files carry are a store from
  paths to tags, a path with no entry being a file with no ID3 header
  (\<open>ID3NoHeaderError\<close>). Other failures of the tagging library are not modelled.
  \<open>add_metadata\<close> returns the tags it saves, in order, each with the path it is saved to.
\<close>

type_synonym id3 = "string \<rightharpoonup> string"

record album_info =
  info_artist :: string
  info_album :: string
  info_year :: "string option"

definition truthy :: "string option \<Rightarrow> bool" where
  \<comment> \<open>the truth value of a value that is \<open>None\<close> or a \<open>str\<close>\<close>
  "truthy v = (case v of None \<Rightarrow> False | Some s \<Rightarrow> s \<noteq> [])"

definition tag_frames :: "album_info \<Rightarrow> nat \<Rightarrow> nat \<Rightarrow> string \<Rightarrow> id3 \<Rightarrow> id3" where
  \<comment> \<open>the \<open>audio.add\<close> calls of one iteration, for index \<open>i\<close> of \<open>n\<close> tracks\<close>
  "tag_frames album_info n i title audio =
     (let a1 = audio(''TIT2'' \<mapsto> title);
          a2 = a1(''TPE1'' \<mapsto> info_artist album_info);
          a3 = a2(''TALB'' \<mapsto> info_album album_info);
          a4 = a3(''TRCK'' \<mapsto> str_nat i @ ''/'' @ str_nat n)
      in if truthy (info_year album_info)
         then a4(''TDRC'' \<mapsto> the (info_year album_info))
         else a4)"

fun metadata_loop ::
  "album_info \<Rightarrow> nat \<Rightarrow> nat \<Rightarrow> (string \<times> string \<times> string) list \<Rightarrow> (string \<rightharpoonup> id3) \<Rightarrow>
   (string \<times> id3) list" where
  "metadata_loop album_info n i [] store = []"
| "metadata_loop album_info n i ((filepath, title, start_time) # rest) store =
     (let audio = (case store filepath of None \<Rightarrow> Map.empty | Some tag \<Rightarrow> tag);
          saved = tag_frames album_info n i title audio
      in (filepath, saved) # metadata_loop album_info n (Suc i) rest (store(filepath \<mapsto> saved)))"

definition add_metadata ::
  "string list \<Rightarrow> (string \<times> string) list \<Rightarrow> album_info \<Rightarrow> (string \<rightharpoonup> id3) \<Rightarrow>
   (string \<times> id3) list" where
  "add_metadata files tracklist album_info store =
     metadata_loop album_info (length tracklist) 1 (zip files tracklist) store"

section \<open>\<open>parse_config\<close>\<close>

record config =
  cfg_url :: "string option"
  cfg_artist :: "string option"
  cfg_album :: "string option"
  cfg_year :: "string option"
  cfg_tracklist :: "(string \<times> string) list"

definition initial_config :: config where
  "initial_config =
     \<lparr>cfg_url = None, cfg_artist = None, cfg_album = None, cfg_year = None, cfg_tracklist = []\<rparr>"

definition is_linebreak :: "char \<Rightarrow> bool" where
  \<comment> \<open>the line boundaries of \<open>str.splitlines\<close>\<close>
  "is_linebreak c \<longleftrightarrow> c \<in> set [CHR 0x0A, CHR 0x0B, CHR 0x0C, CHR 0x0D,
     CHR 0x1C, CHR 0x1D, CHR 0x1E, CHR 0x85]"

fun splitlines_from :: "string \<Rightarrow> string \<Rightarrow> string list" where
  \<comment> \<open>\<open>cur\<close> holds the characters of the line being read, last one first\<close>
  "splitlines_from cur [] = (if cur = [] then [] else [rev cur])"
| "splitlines_from cur [c] = (if is_linebreak c then [rev cur] else [rev (c # cur)])"
| "splitlines_from cur (c # d # cs) =
     (if c = CHR 0x0D \<and> d = CHR 0x0A then rev cur # splitlines_from [] cs
      else if is_linebreak c then rev cur # splitlines_from [] (d # cs)
      else splitlines_from (c # cur) (d # cs))"

definition splitlines :: "string \<Rightarrow> string list" where
  \<comment> \<open>\<open>str.splitlines()\<close>\<close>
  "splitlines s = splitlines_from [] s"

definition startswith :: "string \<Rightarrow> string \<Rightarrow> bool" where
  "startswith s p \<longleftrightarrow> take (length p) s = p"

definition split_first :: "char \<Rightarrow> string \<Rightarrow> string list" where
  \<comment> \<open>\<open>s.split(sep, 1)\<close> for a separator of one character\<close>
  "split_first sep s =
     (if sep \<in> set s
      then [takeWhile (\<lambda>c. c \<noteq> sep) s, tl (dropWhile (\<lambda>c. c \<noteq> sep) s)]
      else [s])"

definition list_index :: "'a list \<Rightarrow> nat \<Rightarrow> error + 'a" where
  \<comment> \<open>\<open>xs[i]\<close> for a non-negative \<open>i\<close>\<close>
  "list_index xs i = (if i < length xs then Inr (xs ! i) else Inl IndexError)"

definition directive_value :: "string \<Rightarrow> error + string" where
  \<comment> \<open>\<open>line.split(":", 1)[1].strip()\<close>\<close>
  "directive_value line =
     (case list_index (split_first CHR '':'' line) 1 of
        Inl err \<Rightarrow> Inl err
      | Inr v \<Rightarrow> Inr (strip v))"

text \<open>
  The regular expression \<open>^(\d+:\d+(?::\d+)?)\s+(.+)$\<close> is matched as the backtracking
  matcher does: every quantifier is greedy, so the ways each piece can match are tried
  longest first, and \<open>re.match\<close> returns the groups of the first way in which the whole
  pattern matches.
\<close>

definition greedy_plus :: "(char \<Rightarrow> bool) \<Rightarrow> string \<Rightarrow> (string \<times> string) list" where
  \<comment> \<open>the ways one or more characters of a class match at the start of \<open>s\<close>, longest first,
      each with the text left over\<close>
  "greedy_plus p s = map (\<lambda>n. (take n s, drop n s)) (rev [1..<Suc (length (takeWhile p s))])"

definition timestamp_matches :: "string \<Rightarrow> (string \<times> string) list" where
  \<comment> \<open>the ways \<open>(\d+:\d+(?::\d+)?)\<close> matches at the start of the line\<close>
  "timestamp_matches line =
     concat (map (\<lambda>(d1, r1).
       (case r1 of
          [] \<Rightarrow> []
        | c1 # r1' \<Rightarrow>
           if c1 = CHR '':'' then
             concat (map (\<lambda>(d2, r2).
               (case r2 of
                  [] \<Rightarrow> []
                | c2 # r2' \<Rightarrow>
                   if c2 = CHR '':'' then
                     map (\<lambda>(d3, r3). (d1 @ '':'' @ d2 @ '':'' @ d3, r3)) (greedy_plus is_digit r2')
                   else [])
               @ [(d1 @ '':'' @ d2, r2)])
             (greedy_plus is_digit r1'))
           else []))
     (greedy_plus is_digit line))"

definition dot_plus_end :: "string \<Rightarrow> string list" where
  \<comment> \<open>the ways \<open>(.+)$\<close> matches the whole of \<open>r\<close>: the dot matches anything but a newline,
      and \<open>$\<close> matches at the end or before a newline that ends the text\<close>
  "dot_plus_end r =
     (let body = takeWhile (\<lambda>c. c \<noteq> CHR 0x0A) r;
          rest = dropWhile (\<lambda>c. c \<noteq> CHR 0x0A) r
      in if body \<noteq> [] \<and> (rest = [] \<or> rest = [CHR 0x0A]) then [body] else [])"

definition track_matches :: "string \<Rightarrow> (string \<times> string) list" where
  \<comment> \<open>all the ways the whole pattern matches, as pairs of the two groups, in the order tried\<close>
  "track_matches line =
     concat (map (\<lambda>(timestamp, r).
       concat (map (\<lambda>(ws, r'). map (\<lambda>title. (timestamp, title)) (dot_plus_end r'))
         (greedy_plus py_isspace r)))
     (timestamp_matches line))"

definition re_match_track :: "string \<Rightarrow> (string \<times> string) option" where
  \<comment> \<open>\<open>re.match(r'^(\d+:\d+(?::\d+)?)\s+(.+)$', line)\<close>, with \<open>match.groups()\<close>\<close>
  "re_match_track line = (case track_matches line of [] \<Rightarrow> None | g # _ \<Rightarrow> Some g)"

definition parse_line :: "config \<Rightarrow> string \<Rightarrow> error + config" where
  \<comment> \<open>the body of the loop over the lines\<close>
  "parse_line config raw =
     (let line = strip raw in
      if line = [] \<or> startswith line ''#'' then Inr config
      else if startswith line ''url:'' then
        (case directive_value line of
           Inl err \<Rightarrow> Inl err
         | Inr v \<Rightarrow> Inr (config\<lparr>cfg_url := Some v\<rparr>))
      else if startswith line ''artist:'' then
        (case directive_value line of
           Inl err \<Rightarrow> Inl err
         | Inr v \<Rightarrow> Inr (config\<lparr>cfg_artist := Some v\<rparr>))
      else if startswith line ''album:'' then
        (case directive_value line of
           Inl err \<Rightarrow> Inl err
         | Inr v \<Rightarrow> Inr (config\<lparr>cfg_album := Some v\<rparr>))
      else if startswith line ''year:'' then
        (case directive_value line of
           Inl err \<Rightarrow> Inl err
         | Inr v \<Rightarrow> Inr (config\<lparr>cfg_year := Some v\<rparr>))
      else
        (case re_match_track line of
           None \<Rightarrow> Inr config
         | Some (timestamp, title) \<Rightarrow>
            Inr (config\<lparr>cfg_tracklist := cfg_tracklist config @ [(strip title, timestamp)]\<rparr>)))"

fun parse_lines :: "config \<Rightarrow> string list \<Rightarrow> error + config" where
  "parse_lines config [] = Inr config"
| "parse_lines config (raw # rest) =
     (case parse_line config raw of
        Inl err \<Rightarrow> Inl err
      | Inr config' \<Rightarrow> parse_lines config' rest)"

definition missing_fields :: "config \<Rightarrow> string list" where
  \<comment> \<open>the list \<open>missing\<close> built by the validation\<close>
  "missing_fields config =
     (if \<not> truthy (cfg_url config) then [''url''] else []) @
     (if \<not> truthy (cfg_artist config) then [''artist''] else []) @
     (if \<not> truthy (cfg_album config) then [''album''] else []) @
     (if cfg_tracklist config = [] then [''tracklist''] else [])"

definition parse_config :: "string option \<Rightarrow> error + config" where
  \<comment> \<open>the argument is the decoded text of the config file, \<open>None\<close> when the file does not
      exist\<close>
  "parse_config file =
     (case file of
        None \<Rightarrow> Inl SystemExit_not_found
      | Some content \<Rightarrow>
         (case parse_lines initial_config (splitlines content) of
            Inl err \<Rightarrow> Inl err
          | Inr config \<Rightarrow>
             if missing_fields config \<noteq> [] then Inl (SystemExit_missing (missing_fields config))
             else Inr config))"

section \<open>Specification predicates for the tracklist lines\<close>

definition timestamp_form :: "string \<Rightarrow> bool" where
  \<comment> \<open>the specification's \<open>D+:D+\<close> or \<open>D+:D+:D+\<close>\<close>
  "timestamp_form ts \<longleftrightarrow>
     (\<exists>a b. digit_field a \<and> digit_field b \<and> ts = a @ '':'' @ b) \<or>
     (\<exists>a b c. digit_field a \<and> digit_field b \<and> digit_field c \<and> ts = a @ '':'' @ b @ '':'' @ c)"

definition track_line :: "string \<Rightarrow> bool" where
  \<comment> \<open>a timestamp, at least one whitespace character, a non-empty remainder\<close>
  "track_line line \<longleftrightarrow>
     (\<exists>ts ws remainder. line = ts @ ws @ remainder \<and> timestamp_form ts \<and>
        ws \<noteq> [] \<and> list_all py_isspace ws \<and> remainder \<noteq> [])"

definition entry_of :: "string \<Rightarrow> string \<times> string" where
  \<comment> \<open>the (title, timestamp) pair of a tracklist line: the timestamp is the text before the
      first whitespace, the title is what follows, stripped\<close>
  "entry_of line =
     (strip (dropWhile (\<lambda>c. \<not> py_isspace c) line), takeWhile (\<lambda>c. \<not> py_isspace c) line)"

definition config_get :: "string \<Rightarrow> config \<Rightarrow> string option" where
  \<comment> \<open>\<open>config[key]\<close> for the three required directives\<close>
  "config_get key config =
     (if key = ''url'' then cfg_url config
      else if key = ''artist'' then cfg_artist config
      else cfg_album config)"

section \<open>Properties of the string functions\<close>

lemma split_on_notin: "sep \<notin> set s \<Longrightarrow> split_on sep s = [s]"
  by (induction s) auto

lemma split_on_append: "sep \<notin> set a \<Longrightarrow> split_on sep (a @ sep # b) = a # split_on sep b"
  by (induction a) auto

lemma is_digit_simps:
  "is_digit c \<Longrightarrow> \<not> int_isspace c" "is_digit c \<Longrightarrow> \<not> py_isspace c"
  "is_digit c \<Longrightarrow> c \<noteq> CHR ''-''" "is_digit c \<Longrightarrow> c \<noteq> CHR ''+''"
  "is_digit c \<Longrightarrow> c \<noteq> CHR ''_''" "is_digit c \<Longrightarrow> c \<noteq> CHR '':''"
  by (auto simp: is_digit_def int_isspace_def py_isspace_def)

lemma strip_with_id:
  assumes "s \<noteq> []" "\<not> sp (hd s)" "\<not> sp (last s)"
  shows "strip_with sp s = s"
proof -
  from assms have 1: "dropWhile sp s = s" by (cases s) auto
  from assms have "dropWhile sp (rev s) = rev s" by (cases "rev s") (auto simp: last_rev hd_rev)
  with 1 show ?thesis by (simp add: strip_with_def)
qed

lemma digit_field_notin:
  "digit_field d \<Longrightarrow> CHR '':'' \<notin> set d" "digit_field d \<Longrightarrow> CHR ''_'' \<notin> set d"
  by (auto simp: digit_field_def list_all_iff dest: is_digit_simps)

lemma py_digits_digit_field:
  assumes "digit_field d"
  shows "py_digits d =
     (if length d \<le> max_str_digits then Inr (digits_value d) else Inl ValueError)"
proof -
  from assms have all: "list_all is_digit d" "d \<noteq> []" by (simp_all add: digit_field_def)
  have "split_on CHR ''_'' d = [d]" using assms by (simp add: split_on_notin digit_field_notin)
  then show ?thesis using all by (simp add: py_digits_def)
qed

lemma py_int_digits:
  assumes "digit_field d"
  shows "py_int d =
     (if length d \<le> max_str_digits then Inr (int (digits_value d)) else Inl ValueError)"
proof -
  from assms obtain c r where d: "d = c # r" by (cases d) (auto simp: digit_field_def)
  from assms have all: "list_all is_digit d" by (simp add: digit_field_def)
  then have "is_digit (hd d)" "is_digit (last d)" using d by (auto simp: list_all_iff)
  then have st: "strip_with int_isspace d = d"
    using d by (intro strip_with_id) (auto dest: is_digit_simps)
  have c: "is_digit c" using all d by simp
  have "py_int d = (case py_digits d of Inl e \<Rightarrow> Inl e | Inr n \<Rightarrow> Inr (int n))"
    using st d c by (simp add: py_int_def is_digit_simps)
  then show ?thesis using py_digits_digit_field[OF assms] by simp
qed

lemma py_int_digit_field:
  assumes "digit_field d" "length d \<le> max_str_digits"
  shows "py_int d = Inr (int (digits_value d))"
  using py_int_digits[OF assms(1)] assms(2) by simp

lemma split_on_nonempty: "split_on sep s \<noteq> []"
  by (induction s) (auto split: list.splits)

lemma join_split_on: "join_with sep (split_on sep s) = s"
proof (induction s)
  case Nil then show ?case by simp
next
  case (Cons c s)
  obtain w ws where ws: "split_on sep s = w # ws" using split_on_nonempty[of sep s] by (cases "split_on sep s") auto
  show ?case using Cons ws by (cases ws) auto
qed

lemma split_on_join:
  "gs \<noteq> [] \<Longrightarrow> \<forall>g\<in>set gs. sep \<notin> set g \<Longrightarrow> split_on sep (join_with sep gs) = gs"
proof (induction sep gs rule: join_with.induct)
  case (1 sep) then show ?case by simp
next
  case (2 sep g) then show ?case by (simp add: split_on_notin)
next
  case (3 sep g h gs)
  then show ?case by (simp add: split_on_append)
qed

lemma strip_with_sandwich:
  assumes "list_all sp pre" "list_all sp post" "mid \<noteq> []" "\<not> sp (hd mid)" "\<not> sp (last mid)"
  shows "strip_with sp (pre @ mid @ post) = mid"
proof -
  have 1: "dropWhile sp (pre @ mid @ post) = mid @ post"
    using assms by (cases mid) (auto simp: list_all_iff dropWhile_append)
  have "dropWhile sp (rev post @ rev mid) = rev mid"
    using assms by (cases "rev mid") (auto simp: list_all_iff dropWhile_append hd_rev)
  with 1 show ?thesis by (simp add: strip_with_def)
qed

lemma strip_with_decomp:
  "\<exists>pre post. s = pre @ strip_with sp s @ post \<and> list_all sp pre \<and> list_all sp post"
proof -
  let ?t = "dropWhile sp s"
  have "rev ?t = takeWhile sp (rev ?t) @ dropWhile sp (rev ?t)" by simp
  then have "?t = rev (dropWhile sp (rev ?t)) @ rev (takeWhile sp (rev ?t))"
    by (metis rev_append rev_rev_ident)
  then have "s = takeWhile sp s @ strip_with sp s @ rev (takeWhile sp (rev ?t))"
    by (metis strip_with_def takeWhile_dropWhile_id)
  moreover have "list_all sp (takeWhile sp s)" "list_all sp (rev (takeWhile sp (rev ?t)))"
    by (auto simp: list_all_iff dest: set_takeWhileD)
  ultimately show ?thesis by blast
qed

lemma last_dropWhile_eq: "dropWhile P xs \<noteq> [] \<Longrightarrow> last (dropWhile P xs) = last xs"
  by (induction xs) (auto split: if_splits)

lemma strip_with_ends:
  "strip_with sp s \<noteq> [] \<Longrightarrow> \<not> sp (hd (strip_with sp s)) \<and> \<not> sp (last (strip_with sp s))"
proof -
  let ?t = "dropWhile sp s"
  let ?u = "dropWhile sp (rev ?t)"
  assume ne: "strip_with sp s \<noteq> []"
  then have u: "?u \<noteq> []" by (simp add: strip_with_def)
  have t: "?t \<noteq> []"
  proof
    assume a: "?t = []"
    have "?u = []" unfolding a by simp
    with u show False by blast
  qed
  have "last ?u = last (rev ?t)" using u by (rule last_dropWhile_eq)
  then have "last ?u = hd ?t" using t by (simp only: last_rev)
  moreover have "\<not> sp (hd ?t)" using t by (rule hd_dropWhile)
  moreover have "\<not> sp (hd ?u)" using u by (rule hd_dropWhile)
  ultimately show ?thesis using u by (simp add: strip_with_def hd_rev last_rev)
qed

lemma py_digits_ok_iff:
  "\<not> isl (py_digits body) \<longleftrightarrow>
     (\<exists>groups. body = join_with CHR ''_'' groups \<and> groups \<noteq> [] \<and> list_all digit_field groups
        \<and> length (concat groups) \<le> max_str_digits)"
proof
  assume ok: "\<not> isl (py_digits body)"
  then have "list_all digit_field (split_on CHR ''_'' body)"
    by (auto simp: py_digits_def Let_def digit_field_def list_all_iff split: if_splits)
  moreover from ok have "length (concat (split_on CHR ''_'' body)) \<le> max_str_digits"
    by (auto simp: py_digits_def Let_def split: if_splits)
  ultimately show "\<exists>groups. body = join_with CHR ''_'' groups \<and> groups \<noteq> []
      \<and> list_all digit_field groups \<and> length (concat groups) \<le> max_str_digits"
    using join_split_on[of "CHR ''_''" body] split_on_nonempty[of "CHR ''_''" body] by metis
next
  assume "\<exists>groups. body = join_with CHR ''_'' groups \<and> groups \<noteq> [] \<and> list_all digit_field groups
      \<and> length (concat groups) \<le> max_str_digits"
  then obtain groups where g: "body = join_with CHR ''_'' groups" "groups \<noteq> []"
    "list_all digit_field groups" "length (concat groups) \<le> max_str_digits"
    by blast
  then have "split_on CHR ''_'' body = groups"
    by (simp add: split_on_join list_all_iff digit_field_notin)
  then show "\<not> isl (py_digits body)"
    using g by (auto simp: py_digits_def Let_def digit_field_def list_all_iff)
qed


lemma py_int_ok_iff: "\<not> isl (py_int f) \<longleftrightarrow> int_literal f"
proof
  assume ok: "\<not> isl (py_int f)"
  obtain pre post where d: "f = pre @ strip_with int_isspace f @ post"
    "list_all int_isspace pre" "list_all int_isspace post"
    using strip_with_decomp by blast
  from ok obtain c r where cr: "strip_with int_isspace f = c # r"
    by (cases "strip_with int_isspace f") (auto simp: py_int_def)
  let ?sgn = "if c = CHR ''-'' \<or> c = CHR ''+'' then [c] else []"
  let ?body = "if c = CHR ''-'' \<or> c = CHR ''+'' then r else c # r"
  from ok cr have "\<not> isl (py_digits ?body)"
    by (auto simp: py_int_def split: if_splits sum.splits)
  then obtain groups where g: "?body = join_with CHR ''_'' groups" "groups \<noteq> []"
    "list_all digit_field groups" "length (concat groups) \<le> max_str_digits"
    using py_digits_ok_iff by blast
  have "f = pre @ ?sgn @ join_with CHR ''_'' groups @ post"
    using d(1) cr g(1) by (auto split: if_splits)
  moreover have "?sgn = [] \<or> ?sgn = ''+'' \<or> ?sgn = ''-''" by auto
  ultimately show "int_literal f" unfolding int_literal_def using d(2,3) g(2,3,4) by blast
next
  assume "int_literal f"
  then obtain pre sgn groups post where f: "f = pre @ sgn @ join_with CHR ''_'' groups @ post"
    and sp: "list_all int_isspace pre" "list_all int_isspace post"
    and sg: "sgn = [] \<or> sgn = ''+'' \<or> sgn = ''-''"
    and g: "groups \<noteq> []" "list_all digit_field groups"
    and lim: "length (concat groups) \<le> max_str_digits"
    unfolding int_literal_def by blast
  let ?body = "join_with CHR ''_'' groups"
  have okd: "\<not> isl (py_digits ?body)" using g lim py_digits_ok_iff by blast
  obtain g0 gs where gs: "groups = g0 # gs" using g by (cases groups) auto
  then have g0: "digit_field g0" using g by simp
  then obtain c0 r0 where c0: "g0 = c0 # r0" "is_digit c0" by (cases g0) (auto simp: digit_field_def)
  have bne: "?body \<noteq> []" using gs c0 by (cases gs) auto
  have hdb: "hd ?body = c0" using gs c0 by (cases gs) auto
  have "digit_field (last groups)" using g by (simp add: list_all_iff)
  moreover have "last ?body = last (last groups)" using g(1) g(2)
  proof (induction "CHR ''_''" groups rule: join_with.induct)
    case 1 then show ?case by simp
  next
    case (2 g) then show ?case by simp
  next
    case (3 g h gs)
    then have "join_with CHR ''_'' (h # gs) \<noteq> []"
      by (cases h; cases gs) (auto simp: digit_field_def)
    with 3 show ?case by simp
  qed
  ultimately have lastb: "is_digit (last ?body)"
    by (auto simp: digit_field_def list_all_iff)
  let ?mid = "sgn @ ?body"
  have sgsp: "\<not> int_isspace CHR ''+''" "\<not> int_isspace CHR ''-''"
    by (simp_all add: int_isspace_def)
  have mid: "?mid \<noteq> []" "\<not> int_isspace (hd ?mid)" "\<not> int_isspace (last ?mid)"
    using bne hdb lastb c0(2) sg sgsp is_digit_simps(1) by auto
  have "strip_with int_isspace (pre @ ?mid @ post) = ?mid"
    using sp mid by (rule strip_with_sandwich)
  then have st: "strip_with int_isspace f = ?mid" using f by simp
  obtain b0 where b0: "?body = c0 # b0" using bne hdb by (cases ?body) auto
  show "\<not> isl (py_int f)"
    using sg okd st b0 c0(2) by (auto simp: py_int_def is_digit_simps split: sum.splits)
qed


section \<open>Properties of \<open>timestamp_to_seconds\<close>\<close>

lemma split_colon_two:
  "digit_field a \<Longrightarrow> digit_field b \<Longrightarrow> split_on CHR '':'' (a @ CHR '':'' # b) = [a, b]"
  by (simp add: split_on_append split_on_notin digit_field_notin)

lemma split_colon_three:
  "digit_field a \<Longrightarrow> digit_field b \<Longrightarrow> digit_field c \<Longrightarrow>
     split_on CHR '':'' (a @ CHR '':'' # b @ CHR '':'' # c) = [a, b, c]"
  by (simp add: split_on_append split_on_notin digit_field_notin)

lemma timestamp_two_fields:
  assumes "digit_field a" "digit_field b"
  shows "timestamp_to_seconds (a @ '':'' @ b) =
     (if length a \<le> max_str_digits \<and> length b \<le> max_str_digits
      then Inr (int (digits_value a) * 60 + int (digits_value b))
      else Inl ValueError)"
  using assms
  by (simp add: timestamp_to_seconds_def split_colon_two py_int_digits)

lemma timestamp_three_fields:
  assumes "digit_field a" "digit_field b" "digit_field c"
  shows "timestamp_to_seconds (a @ '':'' @ b @ '':'' @ c) =
     (if length a \<le> max_str_digits \<and> length b \<le> max_str_digits \<and> length c \<le> max_str_digits
      then Inr (int (digits_value a) * 3600 + int (digits_value b) * 60 + int (digits_value c))
      else Inl ValueError)"
  using assms
  by (simp add: timestamp_to_seconds_def split_colon_three py_int_digits)

text \<open>
  Claim C3, as the code has it. For digit fields \<open>a\<close>, \<open>b\<close>, \<open>c\<close> (each one or more decimal
  digits) of at most 4300 digits each, the limit of \<open>int()\<close>, the timestamp \<open>a:b\<close> parses to
  minutes times 60 plus seconds and the timestamp \<open>a:b:c\<close> to hours times 3600 plus minutes
  times 60 plus seconds; with a longer field \<open>ValueError\<close> is raised instead; and a value
  returned is never negative. The function is a HOL function of its argument alone, so the
  same string always gives the same result.
\<close>

theorem timestamp_to_seconds_fields:
  assumes "digit_field a" "digit_field b" "digit_field c"
  shows "timestamp_to_seconds (a @ '':'' @ b) =
           (if length a \<le> max_str_digits \<and> length b \<le> max_str_digits
            then Inr (int (digits_value a) * 60 + int (digits_value b))
            else Inl ValueError)
       \<and> timestamp_to_seconds (a @ '':'' @ b @ '':'' @ c) =
           (if length a \<le> max_str_digits \<and> length b \<le> max_str_digits
               \<and> length c \<le> max_str_digits
            then Inr (int (digits_value a) * 3600 + int (digits_value b) * 60
                   + int (digits_value c))
            else Inl ValueError)
       \<and> (\<forall>v. timestamp_to_seconds (a @ '':'' @ b) = Inr v
               \<or> timestamp_to_seconds (a @ '':'' @ b @ '':'' @ c) = Inr v \<longrightarrow> 0 \<le> v)"
proof -
  note A = timestamp_two_fields[OF assms(1,2)]
  note B = timestamp_three_fields[OF assms]
  have "0 \<le> v" if "timestamp_to_seconds (a @ '':'' @ b) = Inr v
      \<or> timestamp_to_seconds (a @ '':'' @ b @ '':'' @ c) = Inr v" for v
    using that unfolding A B by (auto split: if_splits)
  then show ?thesis using A B by blast
qed

theorem timestamp_to_seconds_fields_witness:
  "digit_field ''1'' \<and> digit_field ''23'' \<and> digit_field ''45''
   \<and> timestamp_to_seconds ''1:23'' = Inr 83
   \<and> timestamp_to_seconds ''1:23:45'' = Inr 5025"
  using timestamp_to_seconds_fields [of "''1''" "''23''" "''45''"]
  by (simp add: digit_field_def is_digit_def digits_value_def digit_val_def max_str_digits_def)

text \<open>
  Claim C3, as stated, at the input \<open>0:\<close> followed by 4301 zeros: both fields are strings of
  decimal digits, yet \<open>int()\<close> refuses the second for its length and no value is returned.
\<close>

theorem timestamp_to_seconds_long_field:
  "digit_field ''0'' \<and> digit_field (replicate 4301 CHR ''0'')
   \<and> timestamp_to_seconds (''0:'' @ replicate 4301 CHR ''0'') = Inl ValueError"
proof -
  have a: "digit_field ''0''" by (simp add: digit_field_def is_digit_def)
  have b: "digit_field (replicate 4301 CHR ''0'')"
    by (simp add: digit_field_def is_digit_def list_all_iff)
  show ?thesis
    using timestamp_two_fields[OF a b] a b by (simp add: max_str_digits_def)
qed

lemma isl_py_int_ValueError: "py_int f = Inl e \<Longrightarrow> e = ValueError"
  by (auto simp: py_int_def py_digits_def Let_def split: list.splits if_splits sum.splits)

lemma timestamp_to_seconds_ValueError: "timestamp_to_seconds ts = Inl e \<Longrightarrow> e = ValueError"
  unfolding timestamp_to_seconds_def
  by (auto split: list.splits sum.splits dest: isl_py_int_ValueError)

text \<open>
  Claim C6, as the code has it. \<open>timestamp_to_seconds\<close> raises exactly when the number of
  colon-separated fields is neither 2 nor 3, or some field is not an integer literal as
  \<open>int()\<close> reads it (optional surrounding whitespace, an optional sign, decimal digits
  with optional single underscores between them, at most 4300 digits in all); what it
  raises is always a \<open>ValueError\<close>, and no default value is ever returned in its place.
\<close>

theorem timestamp_to_seconds_raises_iff:
  "(isl (timestamp_to_seconds ts) \<longleftrightarrow>
      (length (split_on CHR '':'' ts) \<noteq> 2 \<and> length (split_on CHR '':'' ts) \<noteq> 3)
      \<or> (\<exists>f \<in> set (split_on CHR '':'' ts). \<not> int_literal f))
   \<and> (\<forall>e. timestamp_to_seconds ts = Inl e \<longrightarrow> e = ValueError)"
proof -
  have ok: "\<And>f. int_literal f \<longleftrightarrow> (\<exists>v. py_int f = Inr v)"
    using py_int_ok_iff by (metis isl_def sum.collapse(2) sum.disc(2))
  have 1: "isl (timestamp_to_seconds ts) \<longleftrightarrow>
      (length (split_on CHR '':'' ts) \<noteq> 2 \<and> length (split_on CHR '':'' ts) \<noteq> 3)
      \<or> (\<exists>f \<in> set (split_on CHR '':'' ts). \<not> int_literal f)"
    unfolding ok timestamp_to_seconds_def
    by (auto split: list.splits sum.splits)
  have 2: "\<forall>e. timestamp_to_seconds ts = Inl e \<longrightarrow> e = ValueError"
    using timestamp_to_seconds_ValueError by blast
  from 1 2 show ?thesis by blast
qed

theorem timestamp_to_seconds_raises_iff_witness:
  "isl (timestamp_to_seconds ''abc'') \<and> isl (timestamp_to_seconds ''1:2:3:4'')
   \<and> isl (timestamp_to_seconds '''') \<and> \<not> isl (timestamp_to_seconds ''1:30'')
   \<and> int_literal ''1'' \<and> int_literal ''30''"
  using timestamp_to_seconds_raises_iff [of "''abc''"]
    timestamp_to_seconds_raises_iff [of "''1:2:3:4''"]
    timestamp_to_seconds_raises_iff [of "''''"]
    timestamp_to_seconds_raises_iff [of "''1:30''"]
  by (simp add: timestamp_to_seconds_def py_int_def py_digits_def strip_with_def int_isspace_def
      is_digit_def digits_value_def digit_val_def max_str_digits_def)

text \<open>
  Claim C6, as stated, at the input \<open>1_0:30\<close>: the first field is not a string of decimal
  digits, yet no error is raised; the underscore is accepted by \<open>int()\<close> and the result
  is 630 seconds.
\<close>

theorem timestamp_to_seconds_underscore_field:
  "timestamp_to_seconds ''1_0:30'' = Inr 630
   \<and> split_on CHR '':'' ''1_0:30'' = [''1_0'', ''30'']
   \<and> \<not> digit_field ''1_0''"
  by (simp add: timestamp_to_seconds_def py_int_def py_digits_def strip_with_def
      int_isspace_def is_digit_def digits_value_def digit_val_def digit_field_def
      max_str_digits_def)

section \<open>Properties of the float arithmetic\<close>

lemma nbits_le: "k < 2 ^ b \<Longrightarrow> nbits k \<le> b"
proof (induction b arbitrary: k)
  case 0
  then show ?case by (simp add: nbits.simps)
next
  case (Suc b)
  then have "k div 2 < 2 ^ b" by simp
  then have "nbits (k div 2) \<le> b" by (rule Suc.IH)
  then show ?case by (subst nbits.simps) simp
qed

lemma round_double_exact:
  assumes "\<bar>k\<bar> < 2 ^ 53" "- 1074 \<le> e" "e \<le> 971"
  shows "round_double k e = Finite k e"
proof -
  have "nbits \<bar>k\<bar> \<le> 53" using assms(1) by (rule nbits_le)
  then show ?thesis using assms(2,3) by (simp add: round_double_def Let_def)
qed

lemma float_of_int_exact: "\<bar>k\<bar> < 2 ^ 53 \<Longrightarrow> float_of_int k = Inr (Finite k 0)"
  by (simp add: float_of_int_def round_double_exact)

lemma float_sub_int_exact:
  assumes T: "is_double tot" and s: "0 \<le> s" "of_int s \<le> float_val tot"
    and b: "float_val tot < 2 ^ 53"
  shows "\<exists>m e. float_sub_int tot s = Inr (Finite m e)
           \<and> float_val (Finite m e) = float_val tot - of_int s"
proof -
  from T obtain m e where t: "tot = Finite m e" and m: "\<bar>m\<bar> < 2 ^ 53"
    and e: "- 1074 \<le> e" "e \<le> 971"
    by (cases tot) (auto simp: is_double_def)
  show ?thesis
  proof (cases "0 \<le> e")
    case True
    with s b t have le: "s \<le> m * 2 ^ nat e" and lt: "m * 2 ^ nat e < 2 ^ 53"
      by (simp_all flip: of_int_mult of_int_power add: of_int_le_iff) 
    then have s53: "\<bar>s\<bar> < 2 ^ 53" using s(1) by simp
    have k: "\<bar>m * 2 ^ nat e - s\<bar> < 2 ^ 53" using le lt s(1) by simp
    have fi: "float_of_int s = Inr (Finite s 0)" using s53 by (rule float_of_int_exact)
    have fs: "float_sub (Finite m e) (Finite s 0) = round_double (m * 2 ^ nat e - s) 0"
      using True by (simp add: min_def)
    have rd: "round_double (m * 2 ^ nat e - s) 0 = Finite (m * 2 ^ nat e - s) 0"
      using k by (rule round_double_exact) simp_all
    have "float_sub_int tot s = Inr (Finite (m * 2 ^ nat e - s) 0)"
      unfolding float_sub_int_def t fi using fs rd by simp
    moreover have "float_val (Finite (m * 2 ^ nat e - s) 0) = float_val tot - of_int s"
      using True t by simp
    ultimately show ?thesis by blast
  next
    case False
    let ?p = "2 ^ nat (- e) :: int"
    have p: "0 < ?p" by simp
    from False s t have "of_int s \<le> (of_int m :: rat) / of_int ?p" by simp
    then have "(of_int s :: rat) * of_int ?p \<le> of_int m"
      using p by (simp add: pos_le_divide_eq)
    then have le: "s * ?p \<le> m" by (simp flip: of_int_mult of_int_power add: of_int_le_iff)
    have "0 \<le> s * ?p" using s(1) by simp
    then have k: "\<bar>m - s * ?p\<bar> < 2 ^ 53" using le m by linarith
    have "s \<le> s * ?p" using s(1) p by (simp add: mult_le_cancel_left1)
    then have s53: "\<bar>s\<bar> < 2 ^ 53" using s(1) le m by linarith
    have fi: "float_of_int s = Inr (Finite s 0)" using s53 by (rule float_of_int_exact)
    have fs: "float_sub (Finite m e) (Finite s 0) = round_double (m - s * ?p) e"
      using False by (simp add: min_def)
    have rd: "round_double (m - s * ?p) e = Finite (m - s * ?p) e"
      using k e by (rule round_double_exact)
    have "float_sub_int tot s = Inr (Finite (m - s * ?p) e)"
      unfolding float_sub_int_def t fi using fs rd by simp
    moreover have "float_val (Finite (m - s * ?p) e) = float_val tot - of_int s"
      using False t by (simp add: field_simps)
    ultimately show ?thesis by blast
  qed
qed

section \<open>Properties of \<open>split_audio\<close>\<close>

lemma parsed_starts_nth:
  assumes "map (\<lambda>e. timestamp_to_seconds (snd e)) tracklist = map Inr starts" "i < length tracklist"
  shows "timestamp_to_seconds (snd (tracklist ! i)) = Inr (starts ! i)"
proof -
  have len: "length starts = length tracklist" using assms(1) by (metis length_map)
  have "map (\<lambda>e. timestamp_to_seconds (snd e)) tracklist ! i = map Inr starts ! i"
    using assms(1) by simp
  then show ?thesis using assms(2) len by simp
qed

lemma float_of_int_error: "float_of_int k = Inl e \<Longrightarrow> e = OverflowError"
  by (auto simp: float_of_int_def split: pyfloat.splits)

lemma float_sub_int_error: "float_sub_int x k = Inl e \<Longrightarrow> e = OverflowError"
  by (auto simp: float_sub_int_def split: sum.splits dest: float_of_int_error)

lemma track_duration_error:
  "track_duration tracklist T i s = Inl e \<Longrightarrow> e = ValueError \<or> e = OverflowError"
  by (auto simp: track_duration_def split: if_splits sum.splits
      dest: timestamp_to_seconds_ValueError float_sub_int_error)

lemma format_1f_error: "format_1f x = Inl e \<Longrightarrow> e = OverflowError"
  by (auto simp: format_1f_def split: pynum.splits dest: float_of_int_error)

lemma prepare_call_error:
  "prepare_call inp dir tracklist T i entry = Inl e \<Longrightarrow> e = ValueError \<or> e = OverflowError"
  by (auto simp: prepare_call_def Let_def split: sum.splits if_splits
      dest: timestamp_to_seconds_ValueError track_duration_error format_1f_error)

lemma prepare_call_iff:
  "prepare_call inp dir tracklist T i entry = Inr call \<longleftrightarrow>
     (\<exists>start duration.
        timestamp_to_seconds (snd entry) = Inr start \<and>
        track_duration tracklist T i start = Inr duration \<and>
        \<not> isl (format_1f duration) \<and> str_int_ok start \<and> str_num_ok duration \<and>
        CHR 0x00 \<notin> set inp \<and> CHR 0x00 \<notin> set (output_file_of dir i (fst entry)) \<and>
        call = \<lparr>call_input = inp, call_ss = start, call_t = duration,
                 call_output = output_file_of dir i (fst entry)\<rparr>)"
  by (auto simp: prepare_call_def Let_def split: sum.splits if_splits)

lemma planned_call_fields:
  assumes st: "map (\<lambda>e. timestamp_to_seconds (snd e)) tracklist = map Inr starts"
    and i: "i < length tracklist"
    and p: "planned_call inp dir tracklist T i = Inr call"
  shows "call_ss call = starts ! i"
    and "Suc i < length tracklist \<Longrightarrow> call_t call = PyInt (starts ! Suc i - starts ! i)"
    and "Suc i = length tracklist \<Longrightarrow>
           \<exists>d. float_sub_int T (starts ! i) = Inr d \<and> call_t call = PyFloat d"
    and "call_output call = output_file_of dir (Suc i) (fst (tracklist ! i))"
proof -
  from p obtain start duration where
    s: "timestamp_to_seconds (snd (tracklist ! i)) = Inr start"
    and d: "track_duration tracklist T (Suc i) start = Inr duration"
    and c: "call = \<lparr>call_input = inp, call_ss = start, call_t = duration,
                 call_output = output_file_of dir (Suc i) (fst (tracklist ! i))\<rparr>"
    unfolding planned_call_def prepare_call_iff by blast
  have start: "start = starts ! i" using parsed_starts_nth[OF st i] s by simp
  show "call_ss call = starts ! i" using c start by simp
  show "call_output call = output_file_of dir (Suc i) (fst (tracklist ! i))" using c by simp
  show "call_t call = PyInt (starts ! Suc i - starts ! i)" if n: "Suc i < length tracklist"
    using d c start n parsed_starts_nth[OF st n] by (auto simp: track_duration_def)
  show "\<exists>d. float_sub_int T (starts ! i) = Inr d \<and> call_t call = PyFloat d"
    if n: "Suc i = length tracklist"
    using d c start n by (auto simp: track_duration_def split: sum.splits)
qed

lemma split_loop_step:
  assumes "j < length tracklist"
  shows "split_loop ffmpeg inp dir tracklist T (Suc j) (drop j tracklist) calls files =
     (case planned_call inp dir tracklist T j of
        Inl err \<Rightarrow> (calls, Inl err)
      | Inr call \<Rightarrow>
         (case ffmpeg call of
            Some err \<Rightarrow> (calls @ [call], Inl err)
          | None \<Rightarrow>
             split_loop ffmpeg inp dir tracklist T (Suc (Suc j)) (drop (Suc j) tracklist)
               (calls @ [call]) (files @ [call_output call])))"
proof -
  have "drop j tracklist = tracklist ! j # drop (Suc j) tracklist"
    using assms by (simp add: Cons_nth_drop_Suc)
  then show ?thesis by (simp add: planned_call_def)
qed

lemma split_loop_calls:
  assumes "j \<le> length tracklist"
  shows "\<exists>k. j \<le> k \<and> k \<le> length tracklist \<and>
     fst (split_loop ffmpeg inp dir tracklist T (Suc j) (drop j tracklist) calls files)
       = calls @ map (\<lambda>i. projr (planned_call inp dir tracklist T i)) [j..<k] \<and>
     (\<forall>i. j \<le> i \<and> i < k \<longrightarrow> \<not> isl (planned_call inp dir tracklist T i))"
  using assms
proof (induction "length tracklist - j" arbitrary: j calls files)
  case 0
  then have "drop j tracklist = []" by simp
  then show ?case using 0 by (intro exI[of _ j]) auto
next
  case (Suc n)
  then have jn: "j < length tracklist" by simp
  note step = split_loop_step[OF jn, of ffmpeg inp dir T calls files]
  show ?case
  proof (cases "planned_call inp dir tracklist T j")
    case (Inl err)
    then show ?thesis using step jn by (intro exI[of _ j]) auto
  next
    case (Inr call)
    show ?thesis
    proof (cases "ffmpeg call")
      case (Some err)
      then show ?thesis using step jn Inr
        by (intro exI[of _ "Suc j"]) (auto simp: le_less_Suc_eq)
    next
      case None
      have "length tracklist - Suc j = n" using Suc(2) by simp
      from Suc(1)[OF this[symmetric], of "calls @ [call]" "files @ [call_output call]"] jn
      obtain k where k: "Suc j \<le> k" "k \<le> length tracklist"
        "fst (split_loop ffmpeg inp dir tracklist T (Suc (Suc j)) (drop (Suc j) tracklist)
           (calls @ [call]) (files @ [call_output call]))
         = (calls @ [call]) @ map (\<lambda>i. projr (planned_call inp dir tracklist T i)) [Suc j..<k]"
        "\<forall>i. Suc j \<le> i \<and> i < k \<longrightarrow> \<not> isl (planned_call inp dir tracklist T i)"
        by auto
      have up: "[j..<k] = j # [Suc j..<k]" using k(1) by (simp add: upt_conv_Cons)
      have "\<forall>i. j \<le> i \<and> i < k \<longrightarrow> \<not> isl (planned_call inp dir tracklist T i)"
        using k(4) Inr by (auto simp: le_less_Suc_eq dest: le_neq_implies_less)
      then show ?thesis using step Inr None k(1,2,3) up
        by (intro exI[of _ k]) auto
    qed
  qed
qed

lemma split_loop_error:
  assumes "j \<le> length tracklist"
    and "snd (split_loop ffmpeg inp dir tracklist T (Suc j) (drop j tracklist) calls files) = Inl e"
  shows "(\<exists>i<length tracklist. planned_call inp dir tracklist T i = Inl e)
     \<or> (\<exists>call. ffmpeg call = Some e)"
  using assms
proof (induction "length tracklist - j" arbitrary: j calls files)
  case 0
  then have "drop j tracklist = []" by simp
  then show ?case using 0 by simp
next
  case (Suc n)
  then have jn: "j < length tracklist" by simp
  note step = split_loop_step[OF jn, of ffmpeg inp dir T calls files]
  show ?case
  proof (cases "planned_call inp dir tracklist T j")
    case (Inl err)
    then show ?thesis using step jn Suc.prems(2) by auto
  next
    case (Inr call)
    show ?thesis
    proof (cases "ffmpeg call")
      case (Some err)
      then show ?thesis using step Inr Suc.prems(2) by auto
    next
      case None
      have "length tracklist - Suc j = n" using Suc(2) by simp
      from Suc(1)[OF this[symmetric], of "calls @ [call]" "files @ [call_output call]"]
      show ?thesis using step Inr None Suc.prems(2) jn by simp
    qed
  qed
qed

lemma split_loop_success:
  assumes "j \<le> length tracklist"
    and "\<forall>i. j \<le> i \<and> i < length tracklist \<longrightarrow>
           (\<exists>call. planned_call inp dir tracklist T i = Inr call \<and> ffmpeg call = None)"
  shows "split_loop ffmpeg inp dir tracklist T (Suc j) (drop j tracklist) calls files =
     (calls @ map (\<lambda>i. projr (planned_call inp dir tracklist T i)) [j..<length tracklist],
      Inr (files @ map (\<lambda>i. call_output (projr (planned_call inp dir tracklist T i)))
                     [j..<length tracklist]))"
  using assms
proof (induction "length tracklist - j" arbitrary: j calls files)
  case 0
  then have "drop j tracklist = []" by simp
  then show ?case using 0 by simp
next
  case (Suc n)
  then have jn: "j < length tracklist" by simp
  note step = split_loop_step[OF jn, of ffmpeg inp dir T calls files]
  from Suc.prems(2) jn obtain call where
    c: "planned_call inp dir tracklist T j = Inr call" "ffmpeg call = None" by blast
  have "length tracklist - Suc j = n" using Suc(2) by simp
  from Suc(1)[OF this[symmetric], of "calls @ [call]" "files @ [call_output call]"]
  have IH: "split_loop ffmpeg inp dir tracklist T (Suc (Suc j)) (drop (Suc j) tracklist)
       (calls @ [call]) (files @ [call_output call]) =
     ((calls @ [call]) @ map (\<lambda>i. projr (planned_call inp dir tracklist T i))
         [Suc j..<length tracklist],
      Inr ((files @ [call_output call])
         @ map (\<lambda>i. call_output (projr (planned_call inp dir tracklist T i)))
             [Suc j..<length tracklist]))"
    using Suc.prems(2) jn by simp
  have up: "[j..<length tracklist] = j # [Suc j..<length tracklist]"
    using jn by (simp add: upt_conv_Cons)
  show ?case unfolding step up using c IH by simp
qed

lemma split_loop_success_only:
  assumes "j \<le> length tracklist"
    and "\<not> isl (snd (split_loop ffmpeg inp dir tracklist T (Suc j) (drop j tracklist) calls files))"
  shows "\<forall>i. j \<le> i \<and> i < length tracklist \<longrightarrow>
           (\<exists>call. planned_call inp dir tracklist T i = Inr call \<and> ffmpeg call = None)"
  using assms
proof (induction "length tracklist - j" arbitrary: j calls files)
  case 0
  then show ?case by auto
next
  case (Suc n)
  then have jn: "j < length tracklist" by simp
  note step = split_loop_step[OF jn, of ffmpeg inp dir T calls files]
  from Suc.prems(2) step obtain call where
    c: "planned_call inp dir tracklist T j = Inr call" "ffmpeg call = None"
    by (cases "planned_call inp dir tracklist T j";
        cases "ffmpeg (projr (planned_call inp dir tracklist T j))") auto
  have "length tracklist - Suc j = n" using Suc(2) by simp
  from Suc(1)[OF this[symmetric], of "calls @ [call]" "files @ [call_output call]"]
  have "\<forall>i. Suc j \<le> i \<and> i < length tracklist \<longrightarrow>
           (\<exists>call. planned_call inp dir tracklist T i = Inr call \<and> ffmpeg call = None)"
    using Suc.prems(2) step c jn by simp
  then show ?case using c by (auto simp: le_less_Suc_eq dest: le_neq_implies_less)
qed

lemma split_audio_calls:
  "length (fst (split_audio ffmpeg inp dir tracklist T)) \<le> length tracklist
   \<and> (\<forall>i < length (fst (split_audio ffmpeg inp dir tracklist T)).
         planned_call inp dir tracklist T i = Inr (fst (split_audio ffmpeg inp dir tracklist T) ! i))"
proof -
  obtain k where k: "k \<le> length tracklist"
    "fst (split_audio ffmpeg inp dir tracklist T)
       = map (\<lambda>i. projr (planned_call inp dir tracklist T i)) [0..<k]"
    "\<forall>i. i < k \<longrightarrow> \<not> isl (planned_call inp dir tracklist T i)"
    using split_loop_calls[of 0 tracklist ffmpeg inp dir T "[]" "[]"]
    by (auto simp: split_audio_def)
  show ?thesis unfolding k(2) using k(1,3) by simp
qed

lemma split_audio_error:
  assumes "snd (split_audio ffmpeg inp dir tracklist T) = Inl e"
  shows "e = ValueError \<or> e = OverflowError \<or> (\<exists>call. ffmpeg call = Some e)"
proof -
  have "(\<exists>i<length tracklist. planned_call inp dir tracklist T i = Inl e)
     \<or> (\<exists>call. ffmpeg call = Some e)"
    using split_loop_error[of 0 tracklist ffmpeg inp dir T "[]" "[]" e] assms
    by (simp add: split_audio_def)
  then show ?thesis unfolding planned_call_def using prepare_call_error by blast
qed

lemma split_audio_success_iff:
  "\<not> isl (snd (split_audio ffmpeg inp dir tracklist T)) \<longleftrightarrow>
     (\<forall>i<length tracklist. \<exists>call. planned_call inp dir tracklist T i = Inr call
        \<and> ffmpeg call = None)"
proof
  assume "\<not> isl (snd (split_audio ffmpeg inp dir tracklist T))"
  then show "\<forall>i<length tracklist. \<exists>call. planned_call inp dir tracklist T i = Inr call
        \<and> ffmpeg call = None"
    using split_loop_success_only[of 0 tracklist ffmpeg inp dir T "[]" "[]"]
    by (simp add: split_audio_def)
next
  assume "\<forall>i<length tracklist. \<exists>call. planned_call inp dir tracklist T i = Inr call
        \<and> ffmpeg call = None"
  then show "\<not> isl (snd (split_audio ffmpeg inp dir tracklist T))"
    using split_loop_success[of 0 tracklist inp dir T ffmpeg "[]" "[]"]
    by (simp add: split_audio_def)
qed

lemma split_audio_success:
  assumes "\<not> isl (snd (split_audio ffmpeg inp dir tracklist T))"
  shows "length (fst (split_audio ffmpeg inp dir tracklist T)) = length tracklist"
    and "projr (snd (split_audio ffmpeg inp dir tracklist T))
           = map call_output (fst (split_audio ffmpeg inp dir tracklist T))"
proof -
  have all: "\<forall>i. 0 \<le> i \<and> i < length tracklist \<longrightarrow>
      (\<exists>call. planned_call inp dir tracklist T i = Inr call \<and> ffmpeg call = None)"
    using assms split_audio_success_iff by blast
  have R: "split_audio ffmpeg inp dir tracklist T =
     (map (\<lambda>i. projr (planned_call inp dir tracklist T i)) [0..<length tracklist],
      Inr (map (\<lambda>i. call_output (projr (planned_call inp dir tracklist T i)))
             [0..<length tracklist]))"
    using split_loop_success[OF _ all, of "[]" "[]"] by (simp add: split_audio_def)
  show "length (fst (split_audio ffmpeg inp dir tracklist T)) = length tracklist"
    unfolding R by simp
  show "projr (snd (split_audio ffmpeg inp dir tracklist T))
           = map call_output (fst (split_audio ffmpeg inp dir tracklist T))"
    unfolding R by (simp add: comp_def)
qed

lemma split_audio_call_fields:
  assumes st: "map (\<lambda>e. timestamp_to_seconds (snd e)) tracklist = map Inr starts"
    and i: "i < length (fst (split_audio ffmpeg inp dir tracklist T))"
  shows "call_ss (fst (split_audio ffmpeg inp dir tracklist T) ! i) = starts ! i"
    and "Suc i < length tracklist \<Longrightarrow>
           call_t (fst (split_audio ffmpeg inp dir tracklist T) ! i)
             = PyInt (starts ! Suc i - starts ! i)"
    and "Suc i = length tracklist \<Longrightarrow>
           \<exists>d. float_sub_int T (starts ! i) = Inr d
             \<and> call_t (fst (split_audio ffmpeg inp dir tracklist T) ! i) = PyFloat d"
proof -
  have n: "i < length tracklist" and
    p: "planned_call inp dir tracklist T i = Inr (fst (split_audio ffmpeg inp dir tracklist T) ! i)"
    using split_audio_calls[of ffmpeg inp dir tracklist T] i by auto
  show "call_ss (fst (split_audio ffmpeg inp dir tracklist T) ! i) = starts ! i"
    using planned_call_fields(1)[OF st n p] .
  show "call_t (fst (split_audio ffmpeg inp dir tracklist T) ! i)
             = PyInt (starts ! Suc i - starts ! i)" if "Suc i < length tracklist"
    using planned_call_fields(2)[OF st n p that] .
  show "\<exists>d. float_sub_int T (starts ! i) = Inr d
             \<and> call_t (fst (split_audio ffmpeg inp dir tracklist T) ! i) = PyFloat d"
    if "Suc i = length tracklist"
    using planned_call_fields(3)[OF st n p that] .
qed

lemma split_audio_success_durations:
  assumes ne: "tracklist \<noteq> []"
    and st: "map (\<lambda>e. timestamp_to_seconds (snd e)) tracklist = map Inr starts"
    and ok: "\<not> isl (snd (split_audio ffmpeg inp dir tracklist T))"
  shows "\<exists>d. float_sub_int T (last starts) = Inr d
     \<and> map call_t (fst (split_audio ffmpeg inp dir tracklist T))
         = map (\<lambda>i. PyInt (starts ! Suc i - starts ! i)) [0..<length tracklist - 1] @ [PyFloat d]
     \<and> map call_ss (fst (split_audio ffmpeg inp dir tracklist T)) = starts"
proof -
  let ?calls = "fst (split_audio ffmpeg inp dir tracklist T)"
  let ?n = "length tracklist"
  have len: "length ?calls = ?n" using split_audio_success(1)[OF ok] .
  have slen: "length starts = ?n" using st by (metis length_map)
  have n0: "0 < ?n" using ne by simp
  then have lastn: "?n - 1 < length ?calls" "Suc (?n - 1) = ?n" using len by simp_all
  obtain d where d: "float_sub_int T (starts ! (?n - 1)) = Inr d"
    "call_t (?calls ! (?n - 1)) = PyFloat d"
    using split_audio_call_fields(3)[OF st lastn(1) lastn(2)] by blast
  have "starts \<noteq> []" using slen n0 by auto
  then have "last starts = starts ! (length starts - 1)" by (rule last_conv_nth)
  then have l: "starts ! (?n - 1) = last starts" using slen by simp
  have ss: "map call_ss ?calls = starts"
    using split_audio_call_fields(1)[OF st] len slen
    by (intro nth_equalityI) simp_all
  have tt: "map call_t ?calls
      = map (\<lambda>i. PyInt (starts ! Suc i - starts ! i)) [0..<?n - 1] @ [PyFloat d]"
  proof (intro nth_equalityI)
    show "length (map call_t ?calls)
        = length (map (\<lambda>i. PyInt (starts ! Suc i - starts ! i)) [0..<?n - 1] @ [PyFloat d])"
      using len n0 by simp
  next
    fix i assume "i < length (map call_t ?calls)"
    then have i: "i < length ?calls" by simp
    show "map call_t ?calls ! i
        = (map (\<lambda>i. PyInt (starts ! Suc i - starts ! i)) [0..<?n - 1] @ [PyFloat d]) ! i"
    proof (cases "Suc i < ?n")
      case True
      then have "i < ?n - 1" by simp
      then show ?thesis
        using split_audio_call_fields(2)[OF st i True] i by (simp add: nth_append)
    next
      case False
      then have "i = ?n - 1" using i len by simp
      then show ?thesis using d(2) i by (simp add: nth_append)
    qed
  qed
  show ?thesis using d(1) l ss tt by auto
qed

lemma planned_durations:
  assumes "0 < n"
  shows "map (\<lambda>i. if Suc i < n then f i else x) [0..<n] = map f [0..<n - 1] @ [x]"
proof -
  obtain k where n: "n = Suc k" using assms by (cases n) auto
  show ?thesis unfolding n by simp
qed

lemma telescope:
  "sum_list (map (\<lambda>i. (of_int (s ! Suc i - s ! i) :: rat)) [0..<k]) = of_int (s ! k) - of_int (s ! 0)"
  by (induction k) simp_all

lemma split_loop_failure:
  assumes "j \<le> length tracklist"
    and "snd (split_loop ffmpeg inp dir tracklist T (Suc j) (drop j tracklist) calls files) = Inl e"
  shows "\<exists>k. j \<le> k \<and> k < length tracklist
     \<and> (\<forall>i. j \<le> i \<and> i < k \<longrightarrow>
           (\<exists>c. planned_call inp dir tracklist T i = Inr c \<and> ffmpeg c = None))
     \<and> ((planned_call inp dir tracklist T k = Inl e
          \<and> length (fst (split_loop ffmpeg inp dir tracklist T (Suc j) (drop j tracklist)
                       calls files)) = length calls + (k - j))
        \<or> (\<exists>c. planned_call inp dir tracklist T k = Inr c \<and> ffmpeg c = Some e
          \<and> length (fst (split_loop ffmpeg inp dir tracklist T (Suc j) (drop j tracklist)
                       calls files)) = length calls + (Suc k - j)))"
  using assms
proof (induction "length tracklist - j" arbitrary: j calls files)
  case 0
  then have "drop j tracklist = []" by simp
  then show ?case using 0 by simp
next
  case (Suc n)
  then have jn: "j < length tracklist" by simp
  note step = split_loop_step[OF jn, of ffmpeg inp dir T calls files]
  show ?case
  proof (cases "planned_call inp dir tracklist T j")
    case (Inl err)
    then have "err = e" "fst (split_loop ffmpeg inp dir tracklist T (Suc j) (drop j tracklist)
        calls files) = calls"
      using step Suc.prems(2) by simp_all
    then show ?thesis using Inl jn by (intro exI[of _ j]) auto
  next
    case (Inr call)
    show ?thesis
    proof (cases "ffmpeg call")
      case (Some err)
      then have "err = e" "fst (split_loop ffmpeg inp dir tracklist T (Suc j) (drop j tracklist)
          calls files) = calls @ [call]"
        using step Inr Suc.prems(2) by simp_all
      then show ?thesis using Inr Some jn by (intro exI[of _ j]) auto
    next
      case None
      have eq: "split_loop ffmpeg inp dir tracklist T (Suc j) (drop j tracklist) calls files
          = split_loop ffmpeg inp dir tracklist T (Suc (Suc j)) (drop (Suc j) tracklist)
              (calls @ [call]) (files @ [call_output call])"
        using step Inr None by simp
      have n: "n = length tracklist - Suc j" using Suc(2) by simp
      have le: "Suc j \<le> length tracklist" using jn by simp
      from Suc(1)[OF n le, of "calls @ [call]" "files @ [call_output call]"] Suc.prems(2) eq
      obtain k where k: "Suc j \<le> k" "k < length tracklist"
        "\<forall>i. Suc j \<le> i \<and> i < k \<longrightarrow>
           (\<exists>c. planned_call inp dir tracklist T i = Inr c \<and> ffmpeg c = None)"
        "(planned_call inp dir tracklist T k = Inl e
          \<and> length (fst (split_loop ffmpeg inp dir tracklist T (Suc j) (drop j tracklist)
                       calls files)) = length (calls @ [call]) + (k - Suc j))
        \<or> (\<exists>c. planned_call inp dir tracklist T k = Inr c \<and> ffmpeg c = Some e
          \<and> length (fst (split_loop ffmpeg inp dir tracklist T (Suc j) (drop j tracklist)
                       calls files)) = length (calls @ [call]) + (Suc k - Suc j))"
        by auto
      have all: "\<forall>i. j \<le> i \<and> i < k \<longrightarrow>
           (\<exists>c. planned_call inp dir tracklist T i = Inr c \<and> ffmpeg c = None)"
      proof (intro allI impI)
        fix i assume i: "j \<le> i \<and> i < k"
        show "\<exists>c. planned_call inp dir tracklist T i = Inr c \<and> ffmpeg c = None"
        proof (cases "i = j")
          case True
          then show ?thesis using Inr None by simp
        next
          case False
          then have "Suc j \<le> i \<and> i < k" using i by simp
          then show ?thesis using k(3) by blast
        qed
      qed
      have l1: "length (calls @ [call]) + (k - Suc j) = length calls + (k - j)"
        using k(1) by simp
      have l2: "length (calls @ [call]) + (Suc k - Suc j) = length calls + (Suc k - j)"
        using k(1) by simp
      have jk: "j \<le> k" using k(1) by simp
      show ?thesis
        using jk k(2) all k(4) unfolding l1 l2 by (intro exI[of _ k]) simp
    qed
  qed
qed

lemma split_audio_failure:
  assumes "snd (split_audio ffmpeg inp dir tracklist T) = Inl e"
  shows "\<exists>k < length tracklist.
      (\<forall>i < k. \<exists>c. planned_call inp dir tracklist T i = Inr c \<and> ffmpeg c = None)
      \<and> ((planned_call inp dir tracklist T k = Inl e
           \<and> length (fst (split_audio ffmpeg inp dir tracklist T)) = k)
         \<or> (\<exists>c. planned_call inp dir tracklist T k = Inr c \<and> ffmpeg c = Some e
           \<and> length (fst (split_audio ffmpeg inp dir tracklist T)) = Suc k))"
  using split_loop_failure[of 0 tracklist ffmpeg inp dir T "[]" "[]" e] assms
  by (simp add: split_audio_def)

lemma track_duration_starts:
  assumes st: "map (\<lambda>e. timestamp_to_seconds (snd e)) tracklist = map Inr starts"
  shows "track_duration tracklist T (Suc i) s =
     (if Suc i < length tracklist then Inr (PyInt (starts ! Suc i - s))
      else (case float_sub_int T s of Inl err \<Rightarrow> Inl err | Inr d \<Rightarrow> Inr (PyFloat d)))"
  using parsed_starts_nth[OF st, of "Suc i"] by (simp add: track_duration_def)



text \<open>
  Claim C1, as the code has it. \<open>split_audio\<close> makes no check on the sign of a computed
  duration and raises no planning error. For every transcoder, tracklist and total duration:
  the invocations made are, in order, the prepared invocations of the first entries of the
  tracklist; an invocation is prepared exactly when the timestamps involved parse, the
  duration can be computed and formatted, the numeric arguments convert to text, and no path
  contains a NUL character, and it then carries the start offset and the computed duration,
  whatever its sign; an error raised is a \<open>ValueError\<close>, an \<open>OverflowError\<close> or what the
  run of the transcoder raised, it is raised at the first entry whose invocation cannot be
  prepared or whose run fails, every entry before that one has been transcoded, and that
  entry itself has been handed over exactly when the failure is its run's; and
  \<open>split_audio\<close> returns, one output file for each entry, exactly when every entry's
  invocation is prepared and run without error.
\<close>

theorem split_audio_no_duration_check:
  "length (fst (split_audio ffmpeg input_file output_dir tracklist total_duration))
     \<le> length tracklist
   \<and> (\<forall>i < length (fst (split_audio ffmpeg input_file output_dir tracklist total_duration)).
         planned_call input_file output_dir tracklist total_duration i
           = Inr (fst (split_audio ffmpeg input_file output_dir tracklist total_duration) ! i))
   \<and> (\<forall>i call. planned_call input_file output_dir tracklist total_duration i = Inr call \<longleftrightarrow>
         (\<exists>start duration.
            timestamp_to_seconds (snd (tracklist ! i)) = Inr start \<and>
            track_duration tracklist total_duration (Suc i) start = Inr duration \<and>
            \<not> isl (format_1f duration) \<and> str_int_ok start \<and> str_num_ok duration \<and>
            CHR 0x00 \<notin> set input_file \<and>
            CHR 0x00 \<notin> set (output_file_of output_dir (Suc i) (fst (tracklist ! i))) \<and>
            call = \<lparr>call_input = input_file, call_ss = start, call_t = duration,
                     call_output = output_file_of output_dir (Suc i) (fst (tracklist ! i))\<rparr>))
   \<and> (\<forall>e. snd (split_audio ffmpeg input_file output_dir tracklist total_duration) = Inl e \<longrightarrow>
         (e = ValueError \<or> e = OverflowError \<or> (\<exists>call. ffmpeg call = Some e))
         \<and> (\<exists>k < length tracklist.
               (\<forall>i < k. \<exists>call. planned_call input_file output_dir tracklist total_duration i
                                   = Inr call \<and> ffmpeg call = None)
               \<and> ((planned_call input_file output_dir tracklist total_duration k = Inl e
                    \<and> length (fst (split_audio ffmpeg input_file output_dir tracklist
                                   total_duration)) = k)
                  \<or> (\<exists>call. planned_call input_file output_dir tracklist total_duration k
                               = Inr call \<and> ffmpeg call = Some e
                    \<and> length (fst (split_audio ffmpeg input_file output_dir tracklist
                                   total_duration)) = Suc k))))
   \<and> (\<not> isl (snd (split_audio ffmpeg input_file output_dir tracklist total_duration)) \<longleftrightarrow>
         (\<forall>i < length tracklist.
            \<exists>call. planned_call input_file output_dir tracklist total_duration i = Inr call
              \<and> ffmpeg call = None))
   \<and> (\<not> isl (snd (split_audio ffmpeg input_file output_dir tracklist total_duration)) \<longrightarrow>
         length (fst (split_audio ffmpeg input_file output_dir tracklist total_duration))
           = length tracklist
         \<and> projr (snd (split_audio ffmpeg input_file output_dir tracklist total_duration))
           = map call_output
               (fst (split_audio ffmpeg input_file output_dir tracklist total_duration)))"
proof -
  have 3: "\<forall>i call. planned_call input_file output_dir tracklist total_duration i = Inr call \<longleftrightarrow>
         (\<exists>start duration.
            timestamp_to_seconds (snd (tracklist ! i)) = Inr start \<and>
            track_duration tracklist total_duration (Suc i) start = Inr duration \<and>
            \<not> isl (format_1f duration) \<and> str_int_ok start \<and> str_num_ok duration \<and>
            CHR 0x00 \<notin> set input_file \<and>
            CHR 0x00 \<notin> set (output_file_of output_dir (Suc i) (fst (tracklist ! i))) \<and>
            call = \<lparr>call_input = input_file, call_ss = start, call_t = duration,
                     call_output = output_file_of output_dir (Suc i) (fst (tracklist ! i))\<rparr>)"
    unfolding planned_call_def prepare_call_iff by blast
  show ?thesis
    using split_audio_calls[of ffmpeg input_file output_dir tracklist total_duration] 3
      split_audio_error[of ffmpeg input_file output_dir tracklist total_duration]
      split_audio_failure[of ffmpeg input_file output_dir tracklist total_duration]
      split_audio_success_iff[of ffmpeg input_file output_dir tracklist total_duration]
      split_audio_success[of ffmpeg input_file output_dir tracklist total_duration]
    by blast
qed

theorem split_audio_no_duration_check_witness:
  "length (fst (split_audio ffmpeg_ok ''full_audio.mp3'' ''out''
      [(''A'', ''0:00''), (''B'', ''0:50'')] (Finite 40 0))) = 2
   \<and> planned_call ''full_audio.mp3'' ''out'' [(''A'', ''0:00''), (''B'', ''0:50'')] (Finite 40 0) 1
      = Inr \<lparr>call_input = ''full_audio.mp3'', call_ss = 50, call_t = PyFloat (Finite (- 10) 0),
             call_output = ''out/02 - B.mp3''\<rparr>
   \<and> projr (snd (split_audio ffmpeg_ok ''full_audio.mp3'' ''out''
      [(''A'', ''0:00''), (''B'', ''0:50'')] (Finite 40 0)))
      = map call_output (fst (split_audio ffmpeg_ok ''full_audio.mp3'' ''out''
          [(''A'', ''0:00''), (''B'', ''0:50'')] (Finite 40 0)))"
proof -
  have ok: "\<not> isl (snd (split_audio ffmpeg_ok ''full_audio.mp3'' ''out''
      [(''A'', ''0:00''), (''B'', ''0:50'')] (Finite 40 0)))"
    by code_simp
  have p: "planned_call ''full_audio.mp3'' ''out'' [(''A'', ''0:00''), (''B'', ''0:50'')]
      (Finite 40 0) 1
      = Inr \<lparr>call_input = ''full_audio.mp3'', call_ss = 50, call_t = PyFloat (Finite (- 10) 0),
             call_output = ''out/02 - B.mp3''\<rparr>"
    by code_simp
  show ?thesis
    using split_audio_no_duration_check [of ffmpeg_ok "''full_audio.mp3''" "''out''"
        "[(''A'', ''0:00''), (''B'', ''0:50'')]" "Finite 40 0"] ok p
    by simp
qed

text \<open>
  Claim C1, as stated, at the starts 0:00 and 0:50 with a total duration of 40.0: both
  segments are handed to the transcoder, the second with the duration -10.0, and no error is
  raised by \<open>split_audio\<close> itself. With a transcoder that rejects a non-positive duration
  the run does fail, with the transcoder's \<open>CalledProcessError\<close>, after the first segment
  has been transcoded and the second handed over.
\<close>

theorem split_audio_negative_duration:
  "split_audio ffmpeg_ok ''full_audio.mp3'' ''out'' [(''A'', ''0:00''), (''B'', ''0:50'')] (Finite 40 0)
     = ([\<lparr>call_input = ''full_audio.mp3'', call_ss = 0, call_t = PyInt 50,
           call_output = ''out/01 - A.mp3''\<rparr>,
         \<lparr>call_input = ''full_audio.mp3'', call_ss = 50, call_t = PyFloat (Finite (- 10) 0),
           call_output = ''out/02 - B.mp3''\<rparr>],
        Inr [''out/01 - A.mp3'', ''out/02 - B.mp3''])
   \<and> split_audio ffmpeg_positive ''full_audio.mp3'' ''out'' [(''A'', ''0:00''), (''B'', ''0:50'')] (Finite 40 0)
     = ([\<lparr>call_input = ''full_audio.mp3'', call_ss = 0, call_t = PyInt 50,
           call_output = ''out/01 - A.mp3''\<rparr>,
         \<lparr>call_input = ''full_audio.mp3'', call_ss = 50, call_t = PyFloat (Finite (- 10) 0),
           call_output = ''out/02 - B.mp3''\<rparr>],
        Inl CalledProcessError)"
  by code_simp

text \<open>
  Claim C4, as the code has it. The last duration is a float, so the sum is exact where the
  float subtraction is: for a non-empty tracklist whose timestamps parse, a finite total
  duration below \<open>2 ^ 53\<close> seconds and a last start offset between 0 and the total duration,
  every duration is computed and finite, the computed durations sum to the total duration
  minus the first start offset, and whenever \<open>split_audio\<close> raises nothing so do the
  durations handed to the transcoder.
\<close>

theorem split_audio_durations_sum:
  assumes ne: "tracklist \<noteq> []"
    and st: "map (\<lambda>entry. timestamp_to_seconds (snd entry)) tracklist = map Inr starts"
    and T: "is_double total_duration"
    and lo: "0 \<le> last starts" "of_int (last starts) \<le> float_val total_duration"
    and hi: "float_val total_duration < 2 ^ 53"
  shows "(\<forall>i < length tracklist.
           \<exists>d. track_duration tracklist total_duration (Suc i) (starts ! i) = Inr d
              \<and> is_finite d)
       \<and> sum_list (map (\<lambda>i. num_val (projr (track_duration tracklist total_duration (Suc i)
                                               (starts ! i))))
                    [0..<length tracklist])
           = float_val total_duration - of_int (hd starts)
       \<and> (\<not> isl (snd (split_audio ffmpeg input_file output_dir tracklist total_duration)) \<longrightarrow>
            list_all is_finite
              (map call_t (fst (split_audio ffmpeg input_file output_dir tracklist total_duration)))
            \<and> sum_list (map num_val
                (map call_t (fst (split_audio ffmpeg input_file output_dir tracklist
                                   total_duration))))
                = float_val total_duration - of_int (hd starts))"
proof -
  obtain m e where d: "float_sub_int total_duration (last starts) = Inr (Finite m e)"
    and v: "float_val (Finite m e) = float_val total_duration - of_int (last starts)"
    using float_sub_int_exact[OF T lo hi] by blast
  have len: "length starts = length tracklist" using st by (metis length_map)
  then have sne: "starts \<noteq> []" using ne by auto
  have pos: "0 < length tracklist" using ne by simp
  have lst: "starts ! (length tracklist - 1) = last starts"
    using sne len by (simp add: last_conv_nth)
  have hd0: "starts ! 0 = hd starts" using sne by (simp add: hd_conv_nth)
  have td: "track_duration tracklist total_duration (Suc i) (starts ! i) =
      (if Suc i < length tracklist then Inr (PyInt (starts ! Suc i - starts ! i))
       else Inr (PyFloat (Finite m e)))" if i: "i < length tracklist" for i
  proof (cases "Suc i < length tracklist")
    case True
    then show ?thesis using track_duration_starts[OF st, of total_duration i "starts ! i"] by simp
  next
    case False
    then have "i = length tracklist - 1" using i by simp
    then have "starts ! i = last starts" using lst by simp
    then show ?thesis
      using False d track_duration_starts[OF st, of total_duration i "starts ! i"] by simp
  qed
  have 1: "\<forall>i < length tracklist.
      \<exists>d. track_duration tracklist total_duration (Suc i) (starts ! i) = Inr d \<and> is_finite d"
    using td by (simp add: is_finite_def)
  have tele: "sum_list (map (\<lambda>i. (of_int (starts ! Suc i - starts ! i) :: rat))
        [0..<length tracklist - 1]) + float_val (Finite m e)
      = float_val total_duration - of_int (hd starts)"
    unfolding telescope[of starts "length tracklist - 1"] lst hd0 v by simp
  have "map (\<lambda>i. num_val (projr (track_duration tracklist total_duration (Suc i) (starts ! i))))
        [0..<length tracklist]
      = map (\<lambda>i. if Suc i < length tracklist then of_int (starts ! Suc i - starts ! i)
                  else float_val (Finite m e)) [0..<length tracklist]"
    using td by (intro map_cong) auto
  also have "\<dots> = map (\<lambda>i. of_int (starts ! Suc i - starts ! i)) [0..<length tracklist - 1]
      @ [float_val (Finite m e)]"
    by (rule planned_durations[OF pos])
  finally have 2: "sum_list (map (\<lambda>i. num_val (projr (track_duration tracklist total_duration
        (Suc i) (starts ! i)))) [0..<length tracklist])
      = float_val total_duration - of_int (hd starts)"
    using tele by simp
  have 3: "list_all is_finite
        (map call_t (fst (split_audio ffmpeg input_file output_dir tracklist total_duration)))
      \<and> sum_list (map num_val
          (map call_t (fst (split_audio ffmpeg input_file output_dir tracklist total_duration))))
          = float_val total_duration - of_int (hd starts)"
    if ok: "\<not> isl (snd (split_audio ffmpeg input_file output_dir tracklist total_duration))"
  proof -
    have dur: "map call_t (fst (split_audio ffmpeg input_file output_dir tracklist total_duration))
        = map (\<lambda>i. PyInt (starts ! Suc i - starts ! i)) [0..<length tracklist - 1]
          @ [PyFloat (Finite m e)]"
      using split_audio_success_durations[OF ne st ok] d by auto
    have fin: "list_all is_finite
        (map (\<lambda>i. PyInt (starts ! Suc i - starts ! i)) [0..<length tracklist - 1]
          @ [PyFloat (Finite m e)])"
      by (simp add: list_all_iff is_finite_def)
    have "sum_list (map num_val
        (map (\<lambda>i. PyInt (starts ! Suc i - starts ! i)) [0..<length tracklist - 1]
          @ [PyFloat (Finite m e)]))
        = float_val total_duration - of_int (hd starts)"
      using tele by (simp add: comp_def)
    then show ?thesis unfolding dur using fin by simp
  qed
  from 1 2 3 show ?thesis by blast
qed

theorem split_audio_durations_sum_witness:
  "is_double (Finite 400 0)
   \<and> sum_list (map num_val (map call_t (fst (split_audio ffmpeg_ok ''full_audio.mp3'' ''out''
        [(''A'', ''0:10''), (''B'', ''2:05''), (''C'', ''5:00'')] (Finite 400 0))))) = 390"
proof -
  have st: "map (\<lambda>entry. timestamp_to_seconds (snd entry))
      [(''A'', ''0:10''), (''B'', ''2:05''), (''C'', ''5:00'')] = map Inr [10, 125, 300]"
    by code_simp
  have ok: "\<not> isl (snd (split_audio ffmpeg_ok ''full_audio.mp3'' ''out''
      [(''A'', ''0:10''), (''B'', ''2:05''), (''C'', ''5:00'')] (Finite 400 0)))"
    by code_simp
  have T: "is_double (Finite 400 0)" by (simp add: is_double_def)
  show ?thesis
    using split_audio_durations_sum [where ffmpeg = ffmpeg_ok
          and input_file = "''full_audio.mp3''" and output_dir = "''out''", OF _ st T] ok T
    by simp
qed

text \<open>
  Claim C4, as stated, at the starts 0:00 and 0:01 with the total duration \<open>2 ^ 60\<close> seconds,
  a float beyond the last start: the last duration is \<open>2 ^ 60 - 1\<close> rounded to the nearest
  float, which is \<open>2 ^ 60\<close> again, so the two durations sum to \<open>2 ^ 60 + 1\<close> and not to the
  total duration minus the first start.
\<close>

theorem split_audio_durations_sum_rounded:
  "is_double (Finite 1 60)
   \<and> timestamp_to_seconds ''0:00'' = Inr 0 \<and> timestamp_to_seconds ''0:01'' = Inr 1
   \<and> of_int 1 < float_val (Finite 1 60)
   \<and> split_audio ffmpeg_ok ''full_audio.mp3'' ''out''
        [(''A'', ''0:00''), (''B'', ''0:01'')] (Finite 1 60)
       = ([\<lparr>call_input = ''full_audio.mp3'', call_ss = 0, call_t = PyInt 1,
             call_output = ''out/01 - A.mp3''\<rparr>,
           \<lparr>call_input = ''full_audio.mp3'', call_ss = 1,
             call_t = PyFloat (Finite 9007199254740992 7),
             call_output = ''out/02 - B.mp3''\<rparr>],
          Inr [''out/01 - A.mp3'', ''out/02 - B.mp3''])
   \<and> sum_list (map num_val [PyInt 1, PyFloat (Finite 9007199254740992 7)])
       = float_val (Finite 1 60) + 1
   \<and> sum_list (map num_val [PyInt 1, PyFloat (Finite 9007199254740992 7)])
       \<noteq> float_val (Finite 1 60) - of_int 0"
  by code_simp

section \<open>Properties of the decimal formatting\<close>

lemma digit_cases:
  "(d::nat) < 10 \<Longrightarrow>
     d = 0 \<or> d = 1 \<or> d = 2 \<or> d = 3 \<or> d = 4 \<or> d = 5 \<or> d = 6 \<or> d = 7 \<or> d = 8 \<or> d = 9"
  by arith

lemma digit_val_digit_char: "d < 10 \<Longrightarrow> digit_val (digit_char d) = d"
  by (drule digit_cases) (auto simp: digit_val_def digit_char_def)

lemma is_digit_digit_char: "d < 10 \<Longrightarrow> is_digit (digit_char d)"
  by (drule digit_cases) (auto simp: is_digit_def digit_char_def)

lemma digits_value_snoc: "digits_value (ds @ [c]) = 10 * digits_value ds + digit_val c"
  by (simp add: digits_value_def)

lemma str_nat_decimal: "digit_field (str_nat n) \<and> digits_value (str_nat n) = n"
proof (induction n rule: str_nat.induct)
  case (1 n)
  show ?case
  proof (cases "n < 10")
    case True
    then show ?thesis
      by (subst (1 2) str_nat.simps)
         (simp add: digit_field_def digits_value_def digit_val_digit_char is_digit_digit_char)
  next
    case False
    then have IH: "digit_field (str_nat (n div 10))" "digits_value (str_nat (n div 10)) = n div 10"
      using 1 by simp_all
    have m: "n mod 10 < 10" by simp
    show ?thesis
      using False IH m
      by (subst (1 2) str_nat.simps)
         (simp add: digit_field_def digits_value_snoc digit_val_digit_char is_digit_digit_char)
  qed
qed

section \<open>Properties of the file names\<close>

lemma str_replace_map:
  "str_replace old new s = map (\<lambda>c. if c = old then new else c) s"
  by (induction s) simp_all

lemma safe_title_no_slash: "CHR ''/'' \<notin> set (safe_title_of title)"
  by (auto simp: safe_title_of_def str_replace_map)

lemma is_digit_not_slash: "is_digit c \<Longrightarrow> c \<noteq> CHR ''/''"
proof
  assume "is_digit c" and "c = CHR ''/''"
  then have "is_digit CHR ''/''" by simp
  then show False by (simp add: is_digit_def)
qed

lemma format_02d_digits: "format_02d n \<noteq> [] \<and> list_all is_digit (format_02d n)"
proof -
  have d: "str_nat n \<noteq> []" "list_all is_digit (str_nat n)"
    using str_nat_decimal[of n] by (simp_all add: digit_field_def)
  have z: "is_digit CHR ''0''" by (simp add: is_digit_def)
  have "list_all is_digit (replicate (2 - length (str_nat n)) CHR ''0'')"
    using z by (simp add: list_all_iff)
  then show ?thesis using d by (simp add: format_02d_def)
qed

lemma file_name_no_slash:
  "CHR ''/'' \<notin> set (format_02d n @ '' - '' @ safe_title_of title @ ''.mp3'')"
proof -
  have "CHR ''/'' \<notin> set (format_02d n)"
  proof
    assume "CHR ''/'' \<in> set (format_02d n)"
    then have "is_digit CHR ''/''"
      using format_02d_digits[of n] by (simp add: list_all_iff)
    then show False by (simp add: is_digit_def)
  qed
  then show ?thesis using safe_title_no_slash[of title] by simp
qed

lemma file_name_parts:
  "take 1 (format_02d n @ '' - '' @ safe_title_of title @ ''.mp3'') \<noteq> ''/''
   \<and> path_parts (format_02d n @ '' - '' @ safe_title_of title @ ''.mp3'')
       = [format_02d n @ '' - '' @ safe_title_of title @ ''.mp3'']"
proof -
  let ?name = "format_02d n @ '' - '' @ safe_title_of title @ ''.mp3''"
  have ns: "CHR ''/'' \<notin> set ?name" by (rule file_name_no_slash)
  obtain c cs where f: "format_02d n = c # cs" and c: "is_digit c"
    using format_02d_digits[of n] by (cases "format_02d n") auto
  have t: "take 1 ?name \<noteq> ''/''"
    using f is_digit_not_slash[OF c] by simp
  have l: "length ?name > 1" by simp
  then have "?name \<noteq> [] \<and> ?name \<noteq> ''.''" by auto
  then have "path_parts ?name = [?name]"
    unfolding path_parts_def split_on_notin[OF ns] by simp
  with t show ?thesis by simp
qed

lemma path_name_append:
  assumes "CHR ''/'' \<notin> set name" and "pre = [] \<or> last pre = CHR ''/''"
  shows "path_name (pre @ name) = name"
proof -
  have a: "\<forall>c\<in>set (rev name). c \<noteq> CHR ''/''" using assms(1) by auto
  have "takeWhile (\<lambda>c. c \<noteq> CHR ''/'') (rev name @ rev pre) = rev name"
  proof (cases "pre = []")
    case True
    then show ?thesis using a by (simp add: takeWhile_eq_all_conv)
  next
    case False
    then have "pre = butlast pre @ [CHR ''/'']"
      using assms(2) by (metis append_butlast_last_id)
    then obtain q where q: "pre = q @ [CHR ''/'']" by blast
    have "takeWhile (\<lambda>c. c \<noteq> CHR ''/'') (rev name @ CHR ''/'' # rev q)
        = takeWhile (\<lambda>c. c \<noteq> CHR ''/'') (rev name)"
      by (rule takeWhile_tail) simp
    also have "\<dots> = rev name"
      using a by (simp only: takeWhile_eq_all_conv)
    finally have "takeWhile (\<lambda>c. c \<noteq> CHR ''/'') (rev name @ CHR ''/'' # rev q) = rev name" .
    then show ?thesis unfolding q by simp
  qed
  then show ?thesis by (simp add: path_name_def)
qed

lemma join_with_snoc:
  "join_with sep (parts @ [name])
     = (if parts = [] then name else join_with sep parts @ sep # name)"
  by (induction sep parts rule: join_with.induct) auto

lemma path_name_path_str:
  assumes "CHR ''/'' \<notin> set name" and "anchor = [] \<or> last anchor = CHR ''/''"
  shows "path_name (path_str anchor (parts @ [name])) = name"
proof (cases "parts = []")
  case True
  then show ?thesis using path_name_append[OF assms] by (simp add: path_str_def)
next
  case False
  have "path_str anchor (parts @ [name]) = (anchor @ join_with CHR ''/'' parts @ ''/'') @ name"
    using False by (simp add: path_str_def join_with_snoc)
  then show ?thesis using path_name_append[OF assms(1), of "anchor @ join_with CHR ''/'' parts @ ''/''"]
    by simp
qed

lemma path_root_last: "path_root s = [] \<or> last (path_root s) = CHR ''/''"
  by (simp add: path_root_def)

lemma output_file_name:
  "path_name (output_file_of output_dir n title)
     = format_02d n @ '' - '' @ safe_title_of title @ ''.mp3''"
proof -
  have "path_name (path_str (path_root output_dir)
          (path_parts output_dir @ [format_02d n @ '' - '' @ safe_title_of title @ ''.mp3'']))
        = format_02d n @ '' - '' @ safe_title_of title @ ''.mp3''"
    by (rule path_name_path_str[OF file_name_no_slash path_root_last])
  then show ?thesis
    unfolding output_file_of_def path_join_def
    using file_name_parts[of n title] by simp
qed

text \<open>
  Claim C8. The sanitised title has the length of the title; at every position it carries
  a hyphen where the title has a slash and the title's own character elsewhere; and it is
  this sanitised title that the name of the output file, the final component of its path,
  is built from: the two-digit index, \<open> - \<close>, the sanitised title and \<open>.mp3\<close>.
  \<open>Intro / Outro\<close> becomes \<open>Intro - Outro\<close>.
\<close>

theorem safe_title_replaces_slash:
  "length (safe_title_of title) = length title
   \<and> (\<forall>i < length title.
         safe_title_of title ! i = (if title ! i = CHR ''/'' then CHR ''-'' else title ! i))
   \<and> path_name (output_file_of output_dir n title)
       = format_02d n @ '' - '' @ safe_title_of title @ ''.mp3''"
  using output_file_name[of output_dir n title]
  by (simp add: safe_title_of_def str_replace_map)

theorem safe_title_replaces_slash_witness:
  "safe_title_of ''Intro / Outro'' = ''Intro - Outro''
   \<and> output_file_of ''out'' 3 ''Intro / Outro'' = ''out/03 - Intro - Outro.mp3''
   \<and> path_name (output_file_of ''out'' 3 ''Intro / Outro'') = ''03 - Intro - Outro.mp3''
   \<and> output_file_of ''.'' 3 ''Intro / Outro'' = ''03 - Intro - Outro.mp3''
   \<and> output_file_of ''/'' 3 ''Intro / Outro'' = ''/03 - Intro - Outro.mp3''"
proof -
  have ex: "safe_title_of ''Intro / Outro'' = ''Intro - Outro''"
    by (simp add: safe_title_of_def)
  have f: "format_02d 3 = ''03''"
    by code_simp
  have o: "output_file_of ''out'' 3 ''Intro / Outro'' = ''out/03 - Intro - Outro.mp3''"
    by code_simp
  have d: "output_file_of ''.'' 3 ''Intro / Outro'' = ''03 - Intro - Outro.mp3''"
    by code_simp
  have r: "output_file_of ''/'' 3 ''Intro / Outro'' = ''/03 - Intro - Outro.mp3''"
    by code_simp
  show ?thesis
    using safe_title_replaces_slash [of "''Intro / Outro''" "''out''" 3] ex f o d r by simp
qed

section \<open>Properties of \<open>add_metadata\<close>\<close>

lemma metadata_loop_length:
  "length (metadata_loop album_info n i zs store) = length zs"
  by (induction zs arbitrary: i store) (auto simp: Let_def)

lemma tag_frames_TRCK:
  "tag_frames album_info n i title audio ''TRCK'' = Some (str_nat i @ ''/'' @ str_nat n)"
  by (simp add: tag_frames_def Let_def)

lemma metadata_loop_nth:
  "k < length zs \<Longrightarrow>
     fst (metadata_loop album_info n i zs store ! k) = fst (zs ! k)
     \<and> snd (metadata_loop album_info n i zs store ! k) ''TRCK''
         = Some (str_nat (i + k) @ ''/'' @ str_nat n)"
proof (induction zs arbitrary: i k store)
  case Nil
  then show ?case by simp
next
  case (Cons z zs)
  obtain filepath title start_time where z: "z = (filepath, title, start_time)"
    by (cases z) auto
  show ?case
  proof (cases k)
    case 0
    then show ?thesis using z by (simp add: Let_def tag_frames_TRCK)
  next
    case (Suc j)
    then have "j < length zs" using Cons.prems by simp
    from Cons.IH[OF this] show ?thesis using z Suc by (simp add: Let_def)
  qed
qed

text \<open>
  Claim C7. For one file per tracklist entry and every index \<open>i\<close> from 1 to the number
  \<open>n\<close> of entries, the tag saved for the \<open>i\<close>-th file carries the track number frame
  \<open>TRCK\<close> with the text \<open>i/n\<close>, both numbers in decimal; track 7 of 12 is tagged
  \<open>7/12\<close>.
\<close>

theorem add_metadata_track_number:
  assumes "length files = length tracklist" "1 \<le> i" "i \<le> length tracklist"
  shows "length (add_metadata files tracklist album_info store) = length tracklist
       \<and> fst (add_metadata files tracklist album_info store ! (i - 1)) = files ! (i - 1)
       \<and> snd (add_metadata files tracklist album_info store ! (i - 1)) ''TRCK''
           = Some (str_nat i @ ''/'' @ str_nat (length tracklist))"
proof -
  have k: "i - 1 < length (zip files tracklist)" using assms by simp
  show ?thesis
    using metadata_loop_nth[OF k, of album_info "length tracklist" 1 store] assms
    by (simp add: add_metadata_def metadata_loop_length)
qed

theorem add_metadata_track_number_witness:
  "snd (add_metadata (map (\<lambda>k. output_file_of ''out'' (Suc k) ''Track'') [0..<12])
          (replicate 12 (''Track'', ''0:00''))
          \<lparr>info_artist = ''Artist'', info_album = ''Album'', info_year = None\<rparr>
          Map.empty ! 6) ''TRCK''
     = Some ''7/12''"
proof -
  have s: "str_nat 7 @ ''/'' @ str_nat 12 = ''7/12''"
    by code_simp
  show ?thesis
    using add_metadata_track_number [of "map (\<lambda>k. output_file_of ''out'' (Suc k) ''Track'') [0..<12]"
        "replicate 12 (''Track'', ''0:00'')" 7
        "\<lparr>info_artist = ''Artist'', info_album = ''Album'', info_year = None\<rparr>" Map.empty] s
    by simp
qed

section \<open>Properties of \<open>parse_config\<close>\<close>

lemma split_first_key:
  "CHR '':'' \<notin> set key \<Longrightarrow> split_first CHR '':'' (key @ CHR '':'' # rest) = [key, rest]"
  by (simp add: split_first_def takeWhile_append dropWhile_append)

lemma directive_value_key:
  "CHR '':'' \<notin> set key \<Longrightarrow> directive_value (key @ CHR '':'' # rest) = Inr (strip rest)"
  by (simp add: directive_value_def split_first_key list_index_def)

lemma parse_line_stores:
  "(strip raw = ''url:'' @ rest \<longrightarrow>
      parse_line config raw = Inr (config\<lparr>cfg_url := Some (strip rest)\<rparr>))
   \<and> (strip raw = ''artist:'' @ rest \<longrightarrow>
      parse_line config raw = Inr (config\<lparr>cfg_artist := Some (strip rest)\<rparr>))
   \<and> (strip raw = ''album:'' @ rest \<longrightarrow>
      parse_line config raw = Inr (config\<lparr>cfg_album := Some (strip rest)\<rparr>))
   \<and> (strip raw = ''year:'' @ rest \<longrightarrow>
      parse_line config raw = Inr (config\<lparr>cfg_year := Some (strip rest)\<rparr>))"
proof -
  have u: "directive_value (''url:'' @ rest) = Inr (strip rest)"
    using directive_value_key[of "''url''" rest] by simp
  have a: "directive_value (''artist:'' @ rest) = Inr (strip rest)"
    using directive_value_key[of "''artist''" rest] by simp
  have b: "directive_value (''album:'' @ rest) = Inr (strip rest)"
    using directive_value_key[of "''album''" rest] by simp
  have y: "directive_value (''year:'' @ rest) = Inr (strip rest)"
    using directive_value_key[of "''year''" rest] by simp
  show ?thesis
    using u a b y by (simp add: parse_line_def Let_def startswith_def)
qed

text \<open>
  Claim C10. For a line that, once stripped, is \<open>url:\<close>, \<open>artist:\<close>, \<open>album:\<close> or
  \<open>year:\<close> followed by any text, the value stored under that key is all of the text after
  this first colon, stripped of leading and trailing whitespace; colons in it are kept.
  The line \<open>url: https://host/path?t=1:23\<close> stores \<open>https://host/path?t=1:23\<close>.
\<close>

theorem parse_line_directive:
  "(strip raw = ''url:'' @ rest \<longrightarrow>
      parse_line config raw = Inr (config\<lparr>cfg_url := Some (strip rest)\<rparr>))
   \<and> (strip raw = ''artist:'' @ rest \<longrightarrow>
      parse_line config raw = Inr (config\<lparr>cfg_artist := Some (strip rest)\<rparr>))
   \<and> (strip raw = ''album:'' @ rest \<longrightarrow>
      parse_line config raw = Inr (config\<lparr>cfg_album := Some (strip rest)\<rparr>))
   \<and> (strip raw = ''year:'' @ rest \<longrightarrow>
      parse_line config raw = Inr (config\<lparr>cfg_year := Some (strip rest)\<rparr>))"
  by (rule parse_line_stores)

theorem parse_line_directive_witness:
  "parse_line initial_config ''url: https://host/path?t=1:23''
     = Inr (initial_config\<lparr>cfg_url := Some ''https://host/path?t=1:23''\<rparr>)"
proof -
  have 1: "strip ''url: https://host/path?t=1:23'' = ''url:'' @ '' https://host/path?t=1:23''"
    by code_simp
  have 2: "strip '' https://host/path?t=1:23'' = ''https://host/path?t=1:23''"
    by code_simp
  show ?thesis
    using parse_line_directive [of "''url: https://host/path?t=1:23''"
        "'' https://host/path?t=1:23''" initial_config] 1 2
    by simp
qed

lemma greedy_plus_iff:
  "(u, v) \<in> set (greedy_plus p s) \<longleftrightarrow> u @ v = s \<and> u \<noteq> [] \<and> list_all p u"
proof
  assume "(u, v) \<in> set (greedy_plus p s)"
  then obtain n where n: "1 \<le> n" "n \<le> length (takeWhile p s)" and u: "u = take n s" and v: "v = drop n s"
    by (auto simp: greedy_plus_def)
  have "take n s = take n (takeWhile p s @ dropWhile p s)" by simp
  also have "\<dots> = take n (takeWhile p s)" using n(2) by (simp del: takeWhile_dropWhile_id)
  finally have "set u \<subseteq> set (takeWhile p s)" using u by (simp add: set_take_subset)
  then have "list_all p u" by (auto simp: list_all_iff dest: set_takeWhileD)
  moreover have "length (takeWhile p s) \<le> length s" by (rule length_takeWhile_le)
  then have "u \<noteq> []" using n u by auto
  ultimately show "u @ v = s \<and> u \<noteq> [] \<and> list_all p u" using u v by simp
next
  assume a: "u @ v = s \<and> u \<noteq> [] \<and> list_all p u"
  then have "takeWhile p s = u @ takeWhile p v"
    by (auto simp: list_all_iff takeWhile_append2)
  then have "length u \<le> length (takeWhile p s)" by simp
  moreover have "1 \<le> length u" using a by (cases u) auto
  moreover have "u = take (length u) s" "v = drop (length u) s" using a by auto
  ultimately show "(u, v) \<in> set (greedy_plus p s)"
    unfolding greedy_plus_def by (auto simp: image_iff intro!: bexI[of _ "length u"])
qed

lemma concat_mapI: "y \<in> set ys \<Longrightarrow> x \<in> set (f y) \<Longrightarrow> x \<in> set (concat (map f ys))"
  by auto

lemma timestamp_matches_two:
  assumes "(a, CHR '':'' # r1) \<in> set (greedy_plus is_digit line)"
    and "(b, r) \<in> set (greedy_plus is_digit r1)"
  shows "(a @ '':'' @ b, r) \<in> set (timestamp_matches line)"
  unfolding timestamp_matches_def
  apply (rule concat_mapI[OF assms(1)])
  apply (simp only: prod.case list.case refl if_True)
  apply (rule concat_mapI[OF assms(2)])
  apply simp
  done

lemma timestamp_matches_three:
  assumes "(a, CHR '':'' # r1) \<in> set (greedy_plus is_digit line)"
    and "(b, CHR '':'' # r2) \<in> set (greedy_plus is_digit r1)"
    and "(c, r) \<in> set (greedy_plus is_digit r2)"
  shows "(a @ '':'' @ b @ '':'' @ c, r) \<in> set (timestamp_matches line)"
  unfolding timestamp_matches_def
  apply (rule concat_mapI[OF assms(1)])
  apply (simp only: prod.case list.case refl if_True)
  apply (rule concat_mapI[OF assms(2)])
  apply (simp only: prod.case list.case refl if_True set_append)
  apply (rule UnI1)
  using assms(3) apply (simp add: image_iff)
  apply (rule bexI[of _ "(c, r)"])
  apply simp_all
  done

lemma timestamp_matches_iff:
  "(ts, r) \<in> set (timestamp_matches line) \<longleftrightarrow> ts @ r = line \<and> timestamp_form ts"
proof
  assume "(ts, r) \<in> set (timestamp_matches line)"
  then show "ts @ r = line \<and> timestamp_form ts"
    unfolding timestamp_matches_def timestamp_form_def digit_field_def
    by (auto simp: greedy_plus_iff split: list.splits if_splits) blast+
next
  assume a: "ts @ r = line \<and> timestamp_form ts"
  then consider (two) a b where "digit_field a" "digit_field b" "ts = a @ '':'' @ b"
    | (three) a b c where "digit_field a" "digit_field b" "digit_field c" "ts = a @ '':'' @ b @ '':'' @ c"
    unfolding timestamp_form_def by blast
  then show "(ts, r) \<in> set (timestamp_matches line)"
  proof cases
    case two
    have 1: "(a, CHR '':'' # b @ r) \<in> set (greedy_plus is_digit line)"
      using a two by (simp add: greedy_plus_iff digit_field_def)
    have 2: "(b, r) \<in> set (greedy_plus is_digit (b @ r))"
      using two by (simp add: greedy_plus_iff digit_field_def)
    show ?thesis unfolding two(3) using 1 2 by (rule timestamp_matches_two)
  next
    case three
    have 1: "(a, CHR '':'' # b @ CHR '':'' # c @ r) \<in> set (greedy_plus is_digit line)"
      using a three by (simp add: greedy_plus_iff digit_field_def)
    have 2: "(b, CHR '':'' # c @ r) \<in> set (greedy_plus is_digit (b @ CHR '':'' # c @ r))"
      using three by (simp add: greedy_plus_iff digit_field_def)
    have 3: "(c, r) \<in> set (greedy_plus is_digit (c @ r))"
      using three by (simp add: greedy_plus_iff digit_field_def)
    show ?thesis unfolding three(4) using 1 2 3 by (rule timestamp_matches_three)
  qed
qed

lemma dot_plus_end_no_newline:
  "CHR 0x0A \<notin> set r \<Longrightarrow> dot_plus_end r = (if r \<noteq> [] then [r] else [])"
proof -
  assume a: "CHR 0x0A \<notin> set r"
  then have t: "takeWhile (\<lambda>c. c \<noteq> CHR 0x0A) r = r"
    by (intro takeWhile_eq_all_conv[THEN iffD2]) auto
  from a have d: "dropWhile (\<lambda>c. c \<noteq> CHR 0x0A) r = []"
    by (intro dropWhile_eq_Nil_conv[THEN iffD2]) auto
  show ?thesis unfolding dot_plus_end_def Let_def t d by simp
qed

lemma track_matches_iff:
  assumes "CHR 0x0A \<notin> set line"
  shows "(ts, title) \<in> set (track_matches line) \<longleftrightarrow>
     (\<exists>ws. line = ts @ ws @ title \<and> timestamp_form ts \<and> ws \<noteq> [] \<and> list_all py_isspace ws
        \<and> title \<noteq> [])"
proof
  assume "(ts, title) \<in> set (track_matches line)"
  then obtain r ws r' where 1: "(ts, r) \<in> set (timestamp_matches line)"
    and 2: "(ws, r') \<in> set (greedy_plus py_isspace r)"
    and 3: "title \<in> set (dot_plus_end r')"
    unfolding track_matches_def by auto
  from 1 have l: "ts @ r = line" "timestamp_form ts" by (simp_all add: timestamp_matches_iff)
  from 2 have w: "ws @ r' = r" "ws \<noteq> []" "list_all py_isspace ws" by (simp_all add: greedy_plus_iff)
  have "CHR 0x0A \<notin> set r'" using assms l w by auto
  with 3 have "title = r'" "title \<noteq> []" by (auto simp: dot_plus_end_no_newline split: if_splits)
  then show "\<exists>ws. line = ts @ ws @ title \<and> timestamp_form ts \<and> ws \<noteq> [] \<and> list_all py_isspace ws
        \<and> title \<noteq> []" using l w by auto
next
  assume "\<exists>ws. line = ts @ ws @ title \<and> timestamp_form ts \<and> ws \<noteq> [] \<and> list_all py_isspace ws
        \<and> title \<noteq> []"
  then obtain ws where a: "line = ts @ ws @ title" "timestamp_form ts" "ws \<noteq> []"
    "list_all py_isspace ws" "title \<noteq> []" by blast
  have 1: "(ts, ws @ title) \<in> set (timestamp_matches line)"
    using a by (simp add: timestamp_matches_iff)
  have 2: "(ws, title) \<in> set (greedy_plus py_isspace (ws @ title))"
    using a by (simp add: greedy_plus_iff)
  have "CHR 0x0A \<notin> set title" using assms a by auto
  then have 3: "(ts, title) \<in> set (map (\<lambda>t. (ts, t)) (dot_plus_end title))"
    using a by (simp add: dot_plus_end_no_newline)
  show "(ts, title) \<in> set (track_matches line)"
    unfolding track_matches_def
    apply (rule concat_mapI[OF 1])
    apply (simp only: prod.case)
    apply (rule concat_mapI[OF 2])
    apply (simp only: prod.case)
    apply (rule 3)
    done
qed

lemma timestamp_form_no_space:
  assumes "timestamp_form ts"
  shows "\<forall>c\<in>set ts. \<not> py_isspace c" "ts \<noteq> []" "is_digit (hd ts)"
proof -
  have colon: "\<not> py_isspace CHR '':''" by (simp add: py_isspace_def)
  have dig: "\<And>d c. digit_field d \<Longrightarrow> c \<in> set d \<Longrightarrow> \<not> py_isspace c"
    by (auto simp: digit_field_def list_all_iff dest: is_digit_simps(2))
  show "\<forall>c\<in>set ts. \<not> py_isspace c"
    using assms colon dig unfolding timestamp_form_def by auto
  have hd: "\<And>d x. digit_field d \<Longrightarrow> d @ x \<noteq> [] \<and> is_digit (hd (d @ x))"
    by (case_tac d) (auto simp: digit_field_def)
  show "ts \<noteq> []" using assms hd unfolding timestamp_form_def by auto
  show "is_digit (hd ts)" using assms hd unfolding timestamp_form_def by auto
qed

lemma strip_drop_spaces:
  "list_all py_isspace ws \<Longrightarrow> strip (ws @ t) = strip t"
  by (simp add: strip_def strip_with_def dropWhile_append list_all_iff
      dropWhile_eq_Nil_conv[THEN iffD2])

lemma track_match_entry:
  assumes "line = ts @ ws @ title" "timestamp_form ts" "ws \<noteq> []" "list_all py_isspace ws"
  shows "(strip title, ts) = entry_of line"
proof -
  have ns: "\<forall>c\<in>set ts. \<not> py_isspace c" using assms(2) by (rule timestamp_form_no_space)
  obtain w ws' where ws: "ws = w # ws'" "py_isspace w" using assms(3,4) by (cases ws) auto
  have t: "takeWhile (\<lambda>c. \<not> py_isspace c) line = ts"
    unfolding assms(1) ws using ns ws(2) by (simp add: takeWhile_append2)
  have d: "dropWhile (\<lambda>c. \<not> py_isspace c) line = ws @ title"
    unfolding assms(1) using ns ws by (simp add: dropWhile_append2)
  show ?thesis unfolding entry_of_def t d using assms(4) by (simp add: strip_drop_spaces)
qed

lemma re_match_track_iff:
  assumes "CHR 0x0A \<notin> set line"
  shows "re_match_track line = (if track_line line then Some (fst (hd (track_matches line)), snd (hd (track_matches line))) else None)"
    and "track_line line \<Longrightarrow> re_match_track line = Some (ts, title) \<Longrightarrow> (strip title, ts) = entry_of line"
proof -
  have tl: "track_line line \<longleftrightarrow> track_matches line \<noteq> []"
  proof
    assume "track_line line"
    then obtain ts ws r where "line = ts @ ws @ r" "timestamp_form ts" "ws \<noteq> []"
      "list_all py_isspace ws" "r \<noteq> []" unfolding track_line_def by blast
    then have "(ts, r) \<in> set (track_matches line)" using track_matches_iff[OF assms] by blast
    then show "track_matches line \<noteq> []" by auto
  next
    assume "track_matches line \<noteq> []"
    then obtain g where "g \<in> set (track_matches line)" by (cases "track_matches line") auto
    then show "track_line line"
      using track_matches_iff[OF assms, of "fst g" "snd g"] unfolding track_line_def by auto
  qed
  show "re_match_track line = (if track_line line then Some (fst (hd (track_matches line)), snd (hd (track_matches line))) else None)"
    unfolding tl re_match_track_def by (cases "track_matches line") auto
  assume "track_line line" "re_match_track line = Some (ts, title)"
  then have "(ts, title) \<in> set (track_matches line)"
    unfolding re_match_track_def by (cases "track_matches line") auto
  then obtain ws where "line = ts @ ws @ title" "timestamp_form ts" "ws \<noteq> []" "list_all py_isspace ws"
    using track_matches_iff[OF assms] by blast
  then show "(strip title, ts) = entry_of line" by (rule track_match_entry)
qed

lemma set_strip_subset: "set (strip s) \<subseteq> set s"
proof -
  have "set (strip s) \<subseteq> set (dropWhile py_isspace s)"
    unfolding strip_def strip_with_def using set_dropWhileD by fastforce
  also have "\<dots> \<subseteq> set s" using set_dropWhileD by fastforce
  finally show ?thesis .
qed

lemma startswith_decomp: "startswith s p \<Longrightarrow> s = p @ drop (length p) s"
  unfolding startswith_def by (metis append_take_drop_id)

lemma directive_value_startswith:
  assumes "startswith line (key @ '':'')" "CHR '':'' \<notin> set key"
  shows "directive_value line = Inr (strip (drop (Suc (length key)) line))"
proof -
  have "line = key @ CHR '':'' # drop (Suc (length key)) line"
    using startswith_decomp[OF assms(1)] by simp
  then show ?thesis using directive_value_key[OF assms(2)] by metis
qed

lemma track_line_hd:
  assumes "track_line line"
  shows "line \<noteq> []" "is_digit (hd line)"
proof -
  from assms obtain ts ws r where l: "line = ts @ ws @ r" "timestamp_form ts"
    unfolding track_line_def by blast
  from timestamp_form_no_space(2,3)[OF l(2)] l(1) show "line \<noteq> []" "is_digit (hd line)"
    by auto
qed

lemma startswith_hd: "startswith s (c # p) \<Longrightarrow> s \<noteq> [] \<and> hd s = c"
  by (cases s) (auto simp: startswith_def)

lemma track_line_not_directive:
  assumes "track_line line"
  shows "line \<noteq> []" "\<not> startswith line ''#''" "\<not> startswith line ''url:''"
    "\<not> startswith line ''artist:''" "\<not> startswith line ''album:''" "\<not> startswith line ''year:''"
proof -
  have d: "is_digit (hd line)" and n: "line \<noteq> []" using track_line_hd[OF assms] by auto
  show "line \<noteq> []" by (rule n)
  have nd: "\<not> is_digit CHR ''#''" "\<not> is_digit CHR ''u''" "\<not> is_digit CHR ''a''" "\<not> is_digit CHR ''y''"
    by (simp_all add: is_digit_def)
  show "\<not> startswith line ''#''" using d nd startswith_hd by metis
  show "\<not> startswith line ''url:''" using d nd startswith_hd by metis
  show "\<not> startswith line ''artist:''" using d nd startswith_hd by metis
  show "\<not> startswith line ''album:''" using d nd startswith_hd by metis
  show "\<not> startswith line ''year:''" using d nd startswith_hd by metis
qed

lemma parse_line_total: "\<exists>config'. parse_line config raw = Inr config'"
proof -
  have c: "CHR '':'' \<notin> set ''url''" "CHR '':'' \<notin> set ''artist''" "CHR '':'' \<notin> set ''album''"
    "CHR '':'' \<notin> set ''year''" by simp_all
  have u: "startswith (strip raw) ''url:'' \<Longrightarrow> \<exists>v. directive_value (strip raw) = Inr v"
    using directive_value_startswith[of "strip raw" "''url''"] by simp
  have a: "startswith (strip raw) ''artist:'' \<Longrightarrow> \<exists>v. directive_value (strip raw) = Inr v"
    using directive_value_startswith[of "strip raw" "''artist''"] by simp
  have b: "startswith (strip raw) ''album:'' \<Longrightarrow> \<exists>v. directive_value (strip raw) = Inr v"
    using directive_value_startswith[of "strip raw" "''album''"] by simp
  have y: "startswith (strip raw) ''year:'' \<Longrightarrow> \<exists>v. directive_value (strip raw) = Inr v"
    using directive_value_startswith[of "strip raw" "''year''"] by simp
  show ?thesis
    unfolding parse_line_def Let_def using u a b y
    by (auto split: option.splits sum.splits)
qed

lemma parse_line_tracklist:
  assumes nl: "CHR 0x0A \<notin> set raw" and p: "parse_line config raw = Inr config'"
  shows "cfg_tracklist config' =
     cfg_tracklist config @ (if track_line (strip raw) then [entry_of (strip raw)] else [])"
proof -
  let ?line = "strip raw"
  have nl': "CHR 0x0A \<notin> set ?line" using nl set_strip_subset by blast
  show ?thesis
  proof (cases "track_line ?line")
    case True
    note nd = track_line_not_directive[OF True]
    obtain ts title where g: "hd (track_matches ?line) = (ts, title)"
      by (cases "hd (track_matches ?line)")
    have m: "re_match_track ?line = Some (ts, title)"
      using re_match_track_iff(1)[OF nl'] True g by simp
    have e: "(strip title, ts) = entry_of ?line"
      using re_match_track_iff(2)[OF nl' True m] .
    show ?thesis using p nd m e True by (auto simp: parse_line_def Let_def)
  next
    case False
    then have m: "re_match_track ?line = None" using re_match_track_iff(1)[OF nl'] by simp
    show ?thesis using p m False
      by (auto simp: parse_line_def Let_def split: if_splits sum.splits)
  qed
qed

lemma splitlines_from_no_newline:
  "CHR 0x0A \<notin> set cur \<Longrightarrow> \<forall>l\<in>set (splitlines_from cur s). CHR 0x0A \<notin> set l"
proof (induction cur s rule: splitlines_from.induct)
  case (1 cur)
  then show ?case by simp
next
  case (2 cur c)
  then show ?case by (auto simp: is_linebreak_def)
next
  case (3 cur c d cs)
  have lb: "is_linebreak CHR 0x0A" by (simp add: is_linebreak_def)
  show ?case
  proof (cases "c = CHR 0x0D \<and> d = CHR 0x0A")
    case True
    then show ?thesis using 3 by simp
  next
    case False
    show ?thesis
    proof (cases "is_linebreak c")
      case True
      then show ?thesis using 3 False by auto
    next
      case nb: False
      then have "c \<noteq> CHR 0x0A" using lb by auto
      then show ?thesis using 3 False nb by auto
    qed
  qed
qed

lemma splitlines_no_newline: "\<forall>l\<in>set (splitlines s). CHR 0x0A \<notin> set l"
  unfolding splitlines_def by (rule splitlines_from_no_newline) simp

lemma parse_lines_tracklist:
  assumes "\<forall>l\<in>set ls. CHR 0x0A \<notin> set l"
  shows "\<exists>config'. parse_lines config ls = Inr config'
     \<and> cfg_tracklist config' = cfg_tracklist config @ map entry_of (filter track_line (map strip ls))"
  using assms
proof (induction ls arbitrary: config)
  case Nil
  then show ?case by simp
next
  case (Cons raw ls)
  obtain c1 where c1: "parse_line config raw = Inr c1" using parse_line_total by blast
  have t1: "cfg_tracklist c1 =
     cfg_tracklist config @ (if track_line (strip raw) then [entry_of (strip raw)] else [])"
    using Cons.prems c1 by (intro parse_line_tracklist) auto
  from Cons.IH[of c1] Cons.prems obtain c2 where c2: "parse_lines c1 ls = Inr c2"
    "cfg_tracklist c2 = cfg_tracklist c1 @ map entry_of (filter track_line (map strip ls))"
    by auto
  show ?case using c1 c2 t1 by simp
qed

text \<open>
  Claim C5. A line is read as the loop reads it, stripped of surrounding whitespace. The
  tracklist that parsing produces consists of the entries of exactly those lines that are a
  timestamp \<open>D+:D+\<close> or \<open>D+:D+:D+\<close>, then at least one whitespace character, then a
  non-empty remainder, in the order of the lines; every other line leaves the tracklist as
  it is and raises nothing. Such a line is never blank, a comment or a directive, so the
  filtering of those lines does not change which lines are accepted.
\<close>

theorem parse_config_tracklist:
  "(\<exists>config. parse_lines initial_config (splitlines content) = Inr config
      \<and> cfg_tracklist config = map entry_of (filter track_line (map strip (splitlines content))))
   \<and> (\<forall>config. parse_config (Some content) = Inr config \<longrightarrow>
        cfg_tracklist config = map entry_of (filter track_line (map strip (splitlines content))))"
proof -
  obtain c where c: "parse_lines initial_config (splitlines content) = Inr c"
    "cfg_tracklist c = cfg_tracklist initial_config @ map entry_of (filter track_line (map strip (splitlines content)))"
    using parse_lines_tracklist[OF splitlines_no_newline] by blast
  then have t: "cfg_tracklist c = map entry_of (filter track_line (map strip (splitlines content)))"
    by (simp add: initial_config_def)
  show ?thesis using c(1) t by (auto simp: parse_config_def split: if_splits)
qed

theorem parse_config_tracklist_witness:
  "map entry_of (filter track_line (map strip (splitlines
      (''url: https://host/v'' @ [CHR 0x0A] @ ''# tracks'' @ [CHR 0x0A] @ ''0:00 Intro'' @ [CHR 0x0A]
       @ ''not a track'' @ [CHR 0x0A] @ ''12:5'' @ [CHR 0x0A] @ ''  1:02:03   Outro / End  '' @ [CHR 0x0A]))))
     = [(''Intro'', ''0:00''), (''Outro / End'', ''1:02:03'')]"
proof -
  let ?content = "''url: https://host/v'' @ [CHR 0x0A] @ ''# tracks'' @ [CHR 0x0A] @ ''0:00 Intro'' @ [CHR 0x0A]
       @ ''not a track'' @ [CHR 0x0A] @ ''12:5'' @ [CHR 0x0A] @ ''  1:02:03   Outro / End  '' @ [CHR 0x0A]"
  have e: "map_sum id cfg_tracklist (parse_lines initial_config (splitlines ?content))
      = Inr [(''Intro'', ''0:00''), (''Outro / End'', ''1:02:03'')]"
    by code_simp
  show ?thesis
    using parse_config_tracklist [of ?content] e by auto
qed

lemma parse_lines_total: "\<exists>config'. parse_lines config ls = Inr config'"
proof (induction ls arbitrary: config)
  case Nil
  then show ?case by simp
next
  case (Cons raw ls)
  obtain c1 where "parse_line config raw = Inr c1" using parse_line_total by blast
  then show ?case using Cons.IH[of c1] by simp
qed

lemma parse_lines_append:
  "parse_lines config (xs @ ys) =
     (case parse_lines config xs of Inl err \<Rightarrow> Inl err | Inr c \<Rightarrow> parse_lines c ys)"
  by (induction xs arbitrary: config) (auto split: sum.splits)

lemma startswith_artist_album: "startswith s ''artist:'' \<Longrightarrow> \<not> startswith s ''album:''"
proof
  assume sa: "startswith s ''artist:''" and b: "startswith s ''album:''"
  obtain r where r: "s = ''artist:'' @ r" using startswith_decomp[OF sa] by blast
  show False using b unfolding r by (simp add: startswith_def)
qed

lemma parse_line_url:
  assumes p: "parse_line config raw = Inr config'"
  shows "cfg_url config' =
     (if startswith (strip raw) ''url:'' then Some (strip (drop (length ''url:'') (strip raw)))
      else cfg_url config)"
proof (cases "startswith (strip raw) ''url:''")
  case True
  have "parse_line config raw
      = Inr (config\<lparr>cfg_url := Some (strip (drop (length ''url:'') (strip raw)))\<rparr>)"
    using parse_line_stores[of raw "drop (length ''url:'') (strip raw)" config]
      startswith_decomp[OF True] by blast
  then show ?thesis using p True by auto
next
  case False
  then show ?thesis using p
    by (auto simp: parse_line_def Let_def split: if_splits sum.splits option.splits)
qed

lemma parse_line_artist:
  assumes p: "parse_line config raw = Inr config'"
  shows "cfg_artist config' =
     (if startswith (strip raw) ''artist:''
      then Some (strip (drop (length ''artist:'') (strip raw)))
      else cfg_artist config)"
proof (cases "startswith (strip raw) ''artist:''")
  case True
  have "parse_line config raw
      = Inr (config\<lparr>cfg_artist := Some (strip (drop (length ''artist:'') (strip raw)))\<rparr>)"
    using parse_line_stores[of raw "drop (length ''artist:'') (strip raw)" config]
      startswith_decomp[OF True] by blast
  then show ?thesis using p True by auto
next
  case False
  then show ?thesis using p
    by (auto simp: parse_line_def Let_def split: if_splits sum.splits option.splits)
qed

lemma parse_line_album:
  assumes p: "parse_line config raw = Inr config'"
  shows "cfg_album config' =
     (if startswith (strip raw) ''album:''
      then Some (strip (drop (length ''album:'') (strip raw)))
      else cfg_album config)"
proof (cases "startswith (strip raw) ''album:''")
  case True
  have "parse_line config raw
      = Inr (config\<lparr>cfg_album := Some (strip (drop (length ''album:'') (strip raw)))\<rparr>)"
    using parse_line_stores[of raw "drop (length ''album:'') (strip raw)" config]
      startswith_decomp[OF True] by blast
  then show ?thesis using p True by auto
next
  case False
  then show ?thesis using p
    by (auto simp: parse_line_def Let_def split: if_splits sum.splits option.splits)
qed

lemma parse_line_field:
  assumes key: "key = ''url'' \<or> key = ''artist'' \<or> key = ''album''"
    and p: "parse_line config raw = Inr config'"
  shows "config_get key config' =
     (if startswith (strip raw) (key @ '':'')
      then Some (strip (drop (length (key @ '':'')) (strip raw)))
      else config_get key config)"
proof -
  consider "key = ''url''" | "key = ''artist''" | "key = ''album''" using key by blast
  then show ?thesis
  proof cases
    case 1
    show ?thesis unfolding 1 using parse_line_url[OF p] by (simp add: config_get_def)
  next
    case 2
    show ?thesis unfolding 2 using parse_line_artist[OF p] by (simp add: config_get_def)
  next
    case 3
    show ?thesis unfolding 3 using parse_line_album[OF p] by (simp add: config_get_def)
  qed
qed

lemma parse_lines_field_unchanged:
  assumes key: "key = ''url'' \<or> key = ''artist'' \<or> key = ''album''"
    and no: "\<forall>l\<in>set ls. \<not> startswith (strip l) (key @ '':'')"
    and p: "parse_lines config ls = Inr config'"
  shows "config_get key config' = config_get key config"
  using no p
proof (induction ls arbitrary: config)
  case Nil
  then show ?case by simp
next
  case (Cons raw ls)
  obtain c1 where c1: "parse_line config raw = Inr c1" using parse_line_total by blast
  have "\<not> startswith (strip raw) (key @ '':'')" using Cons.prems(1) by simp
  then have "config_get key c1 = config_get key config"
    using parse_line_field[OF key c1] by (simp only: if_False)
  moreover have "config_get key config' = config_get key c1"
    using Cons.IH[of c1] Cons.prems c1 by simp
  ultimately show ?case by simp
qed

lemma missing_fields_empty:
  assumes "key = ''url'' \<or> key = ''artist'' \<or> key = ''album''" "config_get key config = Some []"
  shows "key \<in> set (missing_fields config)"
proof -
  consider "key = ''url''" | "key = ''artist''" | "key = ''album''" using assms(1) by blast
  then show ?thesis
  proof cases
    case 1
    then have "cfg_url config = Some []" using assms(2) by (simp add: config_get_def)
    then show ?thesis using 1 by (simp add: missing_fields_def truthy_def)
  next
    case 2
    then have "cfg_artist config = Some []" using assms(2) by (simp add: config_get_def)
    then show ?thesis using 2 by (simp add: missing_fields_def truthy_def)
  next
    case 3
    then have "cfg_album config = Some []" using assms(2) by (simp add: config_get_def)
    then show ?thesis using 3 by (simp add: missing_fields_def truthy_def)
  qed
qed


text \<open>
  Claim C9, as the code has it. When the last line that sets a required key (\<open>url\<close>,
  \<open>artist\<close> or \<open>album\<close>) is the bare directive, the key and its colon with nothing after
  it, the empty string is stored under the key at that line, no later line replaces it, and
  the validation reports the key among the missing fields: \<open>parse_config\<close> exits.
\<close>

theorem parse_config_empty_directive:
  assumes key: "key = ''url'' \<or> key = ''artist'' \<or> key = ''album''"
    and lines: "splitlines content = before @ raw # after"
    and raw: "strip raw = key @ '':''"
    and last: "\<forall>l\<in>set after. \<not> startswith (strip l) (key @ '':'')"
  shows "(\<exists>config. parse_lines initial_config (before @ [raw]) = Inr config
            \<and> config_get key config = Some [])
       \<and> (\<exists>missing. parse_config (Some content) = Inl (SystemExit_missing missing)
            \<and> key \<in> set missing)"
proof -
  obtain c0 where c0: "parse_lines initial_config before = Inr c0"
    using parse_lines_total by blast
  obtain c1 where c1: "parse_line c0 raw = Inr c1" using parse_line_total by blast
  obtain c2 where c2: "parse_lines c1 after = Inr c2" using parse_lines_total by blast
  have sw: "startswith (strip raw) (key @ '':'')" unfolding raw by (simp add: startswith_def)
  have "config_get key c1 = Some (strip (drop (length (key @ '':'')) (strip raw)))"
    using parse_line_field[OF key c1] sw by (simp only: if_True)
  then have g1: "config_get key c1 = Some []" unfolding raw by (simp add: strip_def strip_with_def)
  have g2: "config_get key c2 = Some []"
    using parse_lines_field_unchanged[OF key last c2] g1 by simp
  have A: "parse_lines initial_config (before @ [raw]) = Inr c1"
    using c0 c1 by (simp add: parse_lines_append)
  have "before @ raw # after = (before @ [raw]) @ after" by simp
  then have B: "parse_lines initial_config (splitlines content) = Inr c2"
    unfolding lines using A c2 by (simp only: parse_lines_append sum.case)
  have m: "key \<in> set (missing_fields c2)" using missing_fields_empty[OF key g2] .
  then have "missing_fields c2 \<noteq> []" by auto
  then have "parse_config (Some content) = Inl (SystemExit_missing (missing_fields c2))"
    using B by (simp add: parse_config_def)
  then show ?thesis using A g1 m by blast
qed

theorem parse_config_empty_directive_witness:
  "parse_config (Some (''url: https://host/v'' @ [CHR 0x0A] @ ''artist:'' @ [CHR 0x0A]
       @ ''album: X'' @ [CHR 0x0A] @ ''0:00 Intro'' @ [CHR 0x0A]))
     = Inl (SystemExit_missing [''artist''])"
proof -
  let ?content = "''url: https://host/v'' @ [CHR 0x0A] @ ''artist:'' @ [CHR 0x0A]
       @ ''album: X'' @ [CHR 0x0A] @ ''0:00 Intro'' @ [CHR 0x0A]"
  have lines: "splitlines ?content = [''url: https://host/v''] @ ''artist:'' # [''album: X'', ''0:00 Intro'']"
    by code_simp
  have raw: "strip ''artist:'' = ''artist'' @ '':''" by code_simp
  have last: "\<forall>l\<in>set [''album: X'', ''0:00 Intro'']. \<not> startswith (strip l) (''artist'' @ '':'')"
    by code_simp
  have e: "parse_config (Some ?content) = Inl (SystemExit_missing [''artist''])"
    by code_simp
  show ?thesis
    using parse_config_empty_directive [OF _ lines raw last] e by simp
qed

text \<open>
  Claim C9, as stated, at a text in which the line \<open>artist:\<close> is followed by the line
  \<open>artist: A\<close>: a directive line with an empty value is present, but the later line
  replaces the stored empty string and \<open>parse_config\<close> returns the configuration.
\<close>

theorem parse_config_empty_directive_overridden:
  "splitlines (''url: https://host/v'' @ [CHR 0x0A] @ ''artist:'' @ [CHR 0x0A]
       @ ''artist: A'' @ [CHR 0x0A] @ ''album: X'' @ [CHR 0x0A] @ ''0:00 Intro'' @ [CHR 0x0A])
     = [''url: https://host/v'', ''artist:'', ''artist: A'', ''album: X'', ''0:00 Intro'']
   \<and> parse_config (Some (''url: https://host/v'' @ [CHR 0x0A] @ ''artist:'' @ [CHR 0x0A]
       @ ''artist: A'' @ [CHR 0x0A] @ ''album: X'' @ [CHR 0x0A] @ ''0:00 Intro'' @ [CHR 0x0A]))
     = Inr \<lparr>cfg_url = Some ''https://host/v'', cfg_artist = Some ''A'', cfg_album = Some ''X'',
            cfg_year = None, cfg_tracklist = [(''Intro'', ''0:00'')]\<rparr>"
  by code_simp

end
